theory Spec2Isabelle
  imports Main
begin

section \<open>Strings and the path library\<close>

text \<open>
  The route handlers work on JavaScript strings and on Node's POSIX \<open>path\<close> module.
  Strings are character lists.  The path functions follow the algorithms of Node's
  \<open>path.posix\<close>: \<open>normalizeString\<close> walks the segments between slashes, dropping empty
  segments and \<open>.\<close>, and letting \<open>..\<close> remove the segment before it; \<open>basename\<close>
  drops trailing slashes and keeps what follows the last slash left.
\<close>

definition slash :: char where
  "slash = CHR ''/''"

definition startsWith :: "string \<Rightarrow> string \<Rightarrow> bool" where
  "startsWith s p = (take (length p) s = p)"

fun includes_str :: "string \<Rightarrow> string \<Rightarrow> bool" where
  "includes_str [] sub = (sub = [])"
| "includes_str (x # xs) sub = (startsWith (x # xs) sub \<or> includes_str xs sub)"

fun split_on :: "char \<Rightarrow> string \<Rightarrow> string list" where
  "split_on c [] = [[]]"
| "split_on c (x # xs) =
     (if x = c then [] # split_on c xs
      else (case split_on c xs of
              [] \<Rightarrow> [[x]]
            | seg # segs \<Rightarrow> (x # seg) # segs))"

fun join_with :: "string \<Rightarrow> string list \<Rightarrow> string" where
  "join_with sep [] = []"
| "join_with sep [s] = s"
| "join_with sep (s # t # ts) = s @ sep @ join_with sep (t # ts)"

definition norm_step :: "bool \<Rightarrow> string list \<Rightarrow> string \<Rightarrow> string list" where
  "norm_step allowAboveRoot res seg =
     (if seg = [] \<or> seg = ''.'' then res
      else if seg = ''..'' then
        (if res \<noteq> [] \<and> last res \<noteq> ''..'' then butlast res
         else if allowAboveRoot then res @ [''..'']
         else res)
      else res @ [seg])"

definition normalizeString :: "string \<Rightarrow> bool \<Rightarrow> string" where
  "normalizeString path allowAboveRoot =
     join_with ''/'' (foldl (norm_step allowAboveRoot) [] (split_on slash path))"

definition isAbsolute :: "string \<Rightarrow> bool" where
  "isAbsolute path = (case path of [] \<Rightarrow> False | c # _ \<Rightarrow> c = slash)"

definition normalize :: "string \<Rightarrow> string" where
  "normalize path =
     (if path = [] then ''.''
      else
        (let trailingSeparator = (last path = slash);
             p = normalizeString path (\<not> isAbsolute path)
         in if p = [] then
              (if isAbsolute path then ''/''
               else if trailingSeparator then ''./'' else ''.'')
            else
              (let p' = (if trailingSeparator then p @ ''/'' else p)
               in if isAbsolute path then ''/'' @ p' else p')))"

definition path_join :: "string list \<Rightarrow> string" where
  "path_join args =
     (let joined = join_with ''/'' (filter (\<lambda>a. a \<noteq> []) args)
      in if joined = [] then ''.'' else normalize joined)"

definition basename :: "string \<Rightarrow> string" where
  "basename path =
     rev (takeWhile (\<lambda>c. c \<noteq> slash) (dropWhile (\<lambda>c. c = slash) (rev path)))"

text \<open>
  \<open>path.resolve\<close> with one argument: a relative argument is placed under the working
  directory \<open>wd\<close> of the process, the result is normalised and carries no trailing
  slash.
\<close>

definition resolve :: "string \<Rightarrow> string \<Rightarrow> string" where
  "resolve wd p =
     (let r1 = (if p = [] then [] else p @ ''/'');
          abs1 = (p \<noteq> [] \<and> isAbsolute p);
          r2 = (if abs1 \<or> wd = [] then r1 else wd @ ''/'' @ r1);
          abs2 = (if abs1 \<or> wd = [] then abs1 else isAbsolute wd);
          n = normalizeString r2 (\<not> abs2)
      in if abs2 then ''/'' @ n else if n \<noteq> [] then n else ''.'')"

section \<open>Session identifiers\<close>

definition digit_chars :: string where
  "digit_chars = ''0123456789''"

definition alnum_chars :: string where
  "alnum_chars =
     ''abcdefghijklmnopqrstuvwxyzABCDEFGHIJKLMNOPQRSTUVWXYZ0123456789''"

definition is_digit :: "char \<Rightarrow> bool" where
  "is_digit c = (c \<in> set digit_chars)"

definition is_alnum :: "char \<Rightarrow> bool" where
  "is_alnum c = (c \<in> set alnum_chars)"

text \<open>The test \<open>/^\d+-[a-zA-Z0-9]+$/.test(session)\<close> of the image route.\<close>

definition session_valid :: "string \<Rightarrow> bool" where
  "session_valid s =
     (let ds = takeWhile is_digit s; rest = dropWhile is_digit s
      in ds \<noteq> [] \<and>
         (case rest of
            [] \<Rightarrow> False
          | c # suffix \<Rightarrow> c = CHR ''-'' \<and> suffix \<noteq> [] \<and> list_all is_alnum suffix))"

definition digit_value :: "char \<Rightarrow> int" where
  "digit_value c = int (of_char c) - 48"

text \<open>
  \<open>parseInt\<close> on the strings that reach it here: the leading run of decimal digits is
  read as a number, and a string with no leading digit gives \<open>NaN\<close> (\<open>None\<close>).
  Timestamps are unbounded integers; the comparison of the handler has the same outcome
  on them as on the doubles of the runtime, since the clock value is an integer below
  \<open>2^53\<close>.
\<close>

definition parseInt :: "string \<Rightarrow> int option" where
  "parseInt s =
     (let ds = takeWhile is_digit s
      in if ds = [] then None
         else Some (foldl (\<lambda>acc c. 10 * acc + digit_value c) 0 ds))"

definition session_timestamp :: "string \<Rightarrow> int option" where
  "session_timestamp session =
     (case split_on (CHR ''-'') session of
        [] \<Rightarrow> None
      | first # _ \<Rightarrow> parseInt first)"

section \<open>The image route\<close>

text \<open>
  The handler \<open>GET\<close> of \<open>app/api/serve-image/route.ts\<close>.  The environment gives the
  variable \<open>VERCEL\<close>, the working directory and the clock; the file system maps a path
  to what is stored there.  The result records the status and body of the response
  (its headers are left out), the path whose bytes were read for it, every path the
  handler asked the file system about before responding, and the directory whose
  removal was handed to the background task.
\<close>

datatype fs_entry = File string | Directory

type_synonym filesystem = "string \<Rightarrow> fs_entry option"

record env =
  VERCEL :: "string option"
  cwd :: string
  now :: int

record get_result =
  status :: nat
  body :: string
  served :: "string option"
  consulted :: "string list"
  cleanup_scheduled :: "string option"

definition truthy :: "string option \<Rightarrow> bool" where
  "truthy v = (case v of None \<Rightarrow> False | Some s \<Rightarrow> s \<noteq> [])"

definition existsSync :: "filesystem \<Rightarrow> string \<Rightarrow> bool" where
  "existsSync fs p = (fs p \<noteq> None)"

definition maxAge :: int where
  "maxAge = 60 * 60 * 1000"

definition tempDir :: "env \<Rightarrow> string" where
  "tempDir e = (if truthy (VERCEL e) then ''/tmp'' else path_join [cwd e, ''temp''])"

definition respond :: "nat \<Rightarrow> string \<Rightarrow> string list \<Rightarrow> get_result" where
  "respond st msg probes =
     \<lparr>status = st, body = msg, served = None, consulted = probes,
      cleanup_scheduled = None\<rparr>"

definition expired :: "env \<Rightarrow> string \<Rightarrow> bool" where
  "expired e session =
     (case session_timestamp session of
        None \<Rightarrow> False
      | Some timestamp \<Rightarrow> now e - timestamp > maxAge)"

definition alternativePaths :: "env \<Rightarrow> string \<Rightarrow> string \<Rightarrow> string list" where
  "alternativePaths e session safePath =
     [path_join [tempDir e, session @ ''-images'', ''images'', safePath],
      path_join [tempDir e, session, ''images'', safePath],
      path_join [tempDir e, session, safePath]]"

text \<open>Reading the bytes: a directory or a missing file makes \<open>readFile\<close> reject, and
  the handler's outer \<open>catch\<close> answers 500.\<close>

definition read_and_serve :: "filesystem \<Rightarrow> string \<Rightarrow> string list \<Rightarrow> get_result" where
  "read_and_serve fs p probes =
     (case fs p of
        Some (File bytes) \<Rightarrow>
          \<lparr>status = 200, body = bytes, served = Some p, consulted = probes @ [p],
           cleanup_scheduled = None\<rparr>
      | _ \<Rightarrow> respond 500 ''Internal server error'' (probes @ [p]))"

text \<open>Lines 49 to 110: the path is reduced to its base name, joined below the temporary
  directory, and looked up there or in the three alternative layouts, in order.  The
  primary path is asked for twice, once by the debug line and once by the check.\<close>

definition resolve_and_serve :: "env \<Rightarrow> filesystem \<Rightarrow> string \<Rightarrow> string \<Rightarrow> get_result" where
  "resolve_and_serve e fs imagePath session =
     (let safePath = basename imagePath
      in if safePath \<noteq> imagePath \<or> includes_str safePath ''..'' then
           respond 403 ''Invalid path'' []
         else
           (let fullImagePath = path_join [tempDir e, session @ ''-images'', safePath]
            in if existsSync fs fullImagePath then
                 read_and_serve fs fullImagePath [fullImagePath, fullImagePath]
               else
                 (let alts = alternativePaths e session safePath;
                      tried = takeWhile (\<lambda>p. \<not> existsSync fs p) alts;
                      probes = [fullImagePath, fullImagePath] @ tried
                  in case find (existsSync fs) alts of
                       None \<Rightarrow> respond 404 ''Image not found'' (probes @ [tempDir e])
                     | Some foundPath \<Rightarrow> read_and_serve fs foundPath (probes @ [foundPath]))))"

definition GET :: "env \<Rightarrow> filesystem \<Rightarrow> string option \<Rightarrow> string option \<Rightarrow> get_result" where
  "GET e fs imagePathParam sessionParam =
     (case (imagePathParam, sessionParam) of
        (Some imagePath, Some session) \<Rightarrow>
          if imagePath = [] \<or> session = [] then respond 400 ''Missing parameters'' []
          else if \<not> session_valid session then respond 403 ''Invalid session'' []
          else if expired e session then
            (respond 410 ''Session expired'' [])
              \<lparr>cleanup_scheduled := Some (path_join [tempDir e, session @ ''-images''])\<rparr>
          else resolve_and_serve e fs imagePath session
      | _ \<Rightarrow> respond 400 ''Missing parameters'' [])"

text \<open>
  The second copy of the route has the same handler up to the expiry check and looks
  the file up in the primary layout only.
\<close>

definition resolve_and_serve_single :: "env \<Rightarrow> filesystem \<Rightarrow> string \<Rightarrow> string \<Rightarrow> get_result" where
  "resolve_and_serve_single e fs imagePath session =
     (let safePath = basename imagePath
      in if safePath \<noteq> imagePath \<or> includes_str safePath ''..'' then
           respond 403 ''Invalid path'' []
         else
           (let fullImagePath = path_join [tempDir e, session @ ''-images'', safePath]
            in if \<not> existsSync fs fullImagePath then
                 respond 404 ''Image not found'' [fullImagePath]
               else read_and_serve fs fullImagePath [fullImagePath]))"

definition GET_single :: "env \<Rightarrow> filesystem \<Rightarrow> string option \<Rightarrow> string option \<Rightarrow> get_result" where
  "GET_single e fs imagePathParam sessionParam =
     (case (imagePathParam, sessionParam) of
        (Some imagePath, Some session) \<Rightarrow>
          if imagePath = [] \<or> session = [] then respond 400 ''Missing parameters'' []
          else if \<not> session_valid session then respond 403 ''Invalid session'' []
          else if expired e session then
            (respond 410 ''Session expired'' [])
              \<lparr>cleanup_scheduled := Some (path_join [tempDir e, session @ ''-images''])\<rparr>
          else resolve_and_serve_single e fs imagePath session
      | _ \<Rightarrow> respond 400 ''Missing parameters'' [])"

section \<open>The session identifier generator\<close>

text \<open>
  In \<open>POST\<close> of the convert route:
  \<^verbatim>\<open>const fileId = `${Date.now()}-${Math.random().toString(36).substring(2)}`;\<close>
  The clock is a natural number, printed in decimal.  The second argument of \<open>fileId\<close>
  is the string that \<open>Math.random().toString(36)\<close> returns.  For a double \<open>x\<close> with
  \<open>0 \<le> x < 1\<close> that string is \<open>0\<close> when \<open>x\<close> is zero and otherwise \<open>0.\<close> followed by
  one or more digits of the alphabet \<open>0-9a-z\<close>, the leading part of the expansion of
  \<open>x\<close> in base 36 up to where it identifies \<open>x\<close>: \<open>0.i\<close> for one half (18/36),
  \<open>0.9\<close> for a quarter.  \<open>radix36_rendering\<close> describes these strings.
\<close>

function decimal :: "nat \<Rightarrow> string" where
  "decimal n =
     (if n < 10 then [digit_chars ! n]
      else decimal (n div 10) @ [digit_chars ! (n mod 10)])"
  by pat_completeness auto
termination
  by (relation "measure (\<lambda>n. n)") auto

definition base36_chars :: string where
  "base36_chars = ''0123456789abcdefghijklmnopqrstuvwxyz''"

definition radix36_rendering :: "string \<Rightarrow> bool" where
  "radix36_rendering r =
     (r = ''0'' \<or>
      (take 2 r = ''0.'' \<and> drop 2 r \<noteq> [] \<and> list_all (\<lambda>c. c \<in> set base36_chars) (drop 2 r)))"

definition randomSuffix :: "string \<Rightarrow> string" where
  "randomSuffix rnd = drop 2 rnd"

definition fileId :: "nat \<Rightarrow> string \<Rightarrow> string" where
  "fileId clock rnd = decimal clock @ ''-'' @ randomSuffix rnd"

section \<open>The convert route: options and output mode\<close>

text \<open>
  The form fields arrive as strings or are absent.  \<open>toLowerCase\<close> is given on the
  ASCII letters, the only ones that can produce \<open>true\<close> or \<open>false\<close>.
\<close>

definition upper_chars :: string where
  "upper_chars = ''ABCDEFGHIJKLMNOPQRSTUVWXYZ''"

definition lower_char :: "char \<Rightarrow> char" where
  "lower_char c = (if c \<in> set upper_chars then char_of (of_char c + (32::nat)) else c)"

definition toLowerCase :: "string \<Rightarrow> string" where
  "toLowerCase s = map lower_char s"

record form =
  preserveLayout_field :: "string option"
  extractImages_field :: "string option"
  extractCharts_field :: "string option"

record convert_options =
  imageDir :: string
  outputDir :: string
  preserveLayout :: bool
  extractImages :: bool
  extractCharts :: bool

definition preserveLayoutFlag :: "form \<Rightarrow> bool" where
  "preserveLayoutFlag f =
     (case preserveLayout_field f of None \<Rightarrow> False | Some v \<Rightarrow> toLowerCase v = ''true'')"

definition extractImagesFlag :: "form \<Rightarrow> bool" where
  "extractImagesFlag f =
     (case extractImages_field f of None \<Rightarrow> True | Some v \<Rightarrow> toLowerCase v \<noteq> ''false'')"

definition extractChartsFlag :: "form \<Rightarrow> bool" where
  "extractChartsFlag f =
     (case extractCharts_field f of None \<Rightarrow> True | Some v \<Rightarrow> toLowerCase v \<noteq> ''false'')"

text \<open>The options object handed to \<open>convert\<close>; \<open>a || true\<close> on booleans is \<open>a \<or> True\<close>.\<close>

definition convert_call_options :: "string \<Rightarrow> string \<Rightarrow> form \<Rightarrow> convert_options" where
  "convert_call_options tmp fid f =
     (let dir = path_join [tmp, fid @ ''-images'']
      in \<lparr>imageDir = dir, outputDir = dir,
          preserveLayout = (preserveLayoutFlag f \<or> True),
          extractImages = extractImagesFlag f,
          extractCharts = extractChartsFlag f\<rparr>)"

text \<open>
  The mode probe of the serverless variant of the route:
  \<^verbatim>\<open>const shouldUseBase64 = process.env.VERCEL || process.env.VERCEL_ENV ||
     !existsSync(path.join(process.cwd(), 'public')) || true; // Force it for now to debug\<close>
  \<open>||\<close> returns its first truthy operand, else its last operand.
\<close>

datatype js_value = JUndefined | JString string | JBool bool

definition js_truthy :: "js_value \<Rightarrow> bool" where
  "js_truthy v = (case v of JUndefined \<Rightarrow> False | JString s \<Rightarrow> s \<noteq> [] | JBool b \<Rightarrow> b)"

definition js_or :: "js_value \<Rightarrow> js_value \<Rightarrow> js_value" where
  "js_or a b = (if js_truthy a then a else b)"

definition env_value :: "string option \<Rightarrow> js_value" where
  "env_value v = (case v of None \<Rightarrow> JUndefined | Some s \<Rightarrow> JString s)"

record convert_env = env +
  VERCEL_ENV :: "string option"

definition shouldUseBase64 :: "convert_env \<Rightarrow> filesystem \<Rightarrow> js_value" where
  "shouldUseBase64 e fs =
     js_or (js_or (js_or (env_value (VERCEL e)) (env_value (VERCEL_ENV e)))
                  (JBool (\<not> existsSync fs (path_join [cwd e, ''public'']))))
           (JBool True)"

datatype output_mode = InlineMode | DiskMode

definition output_mode_of :: "convert_env \<Rightarrow> filesystem \<Rightarrow> output_mode" where
  "output_mode_of e fs = (if js_truthy (shouldUseBase64 e fs) then InlineMode else DiskMode)"

text \<open>
  The deliverable of a conversion without images (lines 297 to 310): the download URL
  and the file written for it, if any.  The base64 encoder is a parameter.
\<close>

record deliverable =
  downloadUrl :: string
  written :: "(string \<times> string) option"

definition outputDirOf :: "convert_env \<Rightarrow> string" where
  "outputDirOf e =
     (if truthy (VERCEL e) then ''/tmp'' else path_join [cwd e, ''public'', ''downloads''])"

definition deliver_markdown ::
  "convert_env \<Rightarrow> filesystem \<Rightarrow> (string \<Rightarrow> string) \<Rightarrow> string \<Rightarrow> string \<Rightarrow> deliverable" where
  "deliver_markdown e fs base64 filename markdown =
     (if js_truthy (shouldUseBase64 e fs) then
        \<lparr>downloadUrl = ''data:text/markdown;base64,'' @ base64 markdown, written = None\<rparr>
      else
        \<lparr>downloadUrl = ''/downloads/'' @ filename,
         written = Some (path_join [outputDirOf e, filename], markdown)\<rparr>)"

section \<open>The retention sweeper\<close>

text \<open>
  \<open>cleanDirectory\<close> of the cleanup route.  A child of the swept directory carries what
  the file system answers for it: the modification time \<open>stat\<close> reports (\<open>None\<close> when
  \<open>stat\<close> rejects), whether it is a directory (\<open>unlink\<close> rejects on one), and whether
  \<open>unlink\<close> or the recursive \<open>rm\<close> reject for another reason such as missing
  permission.  The state of the loop counts the removals and lists the names removed
  and the children whose \<open>stat\<close> was answered.
\<close>

record child =
  child_name :: string
  mtime :: "int option"
  is_directory :: bool
  unlink_rejects :: bool
  rm_rejects :: bool

record sweep_state =
  cleaned :: nat
  removed :: "string list"
  processed :: "string list"

definition CLEANUP_AGE_MS :: int where
  "CLEANUP_AGE_MS = 60 * 60 * 1000"

definition unlink_ok :: "child \<Rightarrow> bool" where
  "unlink_ok c = (\<not> is_directory c \<and> \<not> unlink_rejects c)"

definition rm_ok :: "child \<Rightarrow> bool" where
  "rm_ok c = (\<not> rm_rejects c)"

definition count_removed :: "child \<Rightarrow> sweep_state \<Rightarrow> sweep_state" where
  "count_removed c st = st\<lparr>cleaned := cleaned st + 1, removed := removed st @ [child_name c]\<rparr>"

fun sweep_loop :: "int \<Rightarrow> child list \<Rightarrow> sweep_state \<Rightarrow> sweep_state" where
  "sweep_loop clock [] st = st"
| "sweep_loop clock (file # files) st =
     (case mtime file of
        None \<Rightarrow> st
      | Some m \<Rightarrow>
          (let st' = st\<lparr>processed := processed st @ [child_name file]\<rparr>
           in if clock - m > CLEANUP_AGE_MS then
                (if unlink_ok file then sweep_loop clock files (count_removed file st')
                 else if rm_ok file then sweep_loop clock files (count_removed file st')
                 else sweep_loop clock files st')
              else sweep_loop clock files st'))"

definition cleanDirectory :: "int \<Rightarrow> child list option \<Rightarrow> sweep_state" where
  "cleanDirectory clock listing =
     (let st = \<lparr>cleaned = 0, removed = [], processed = []\<rparr>
      in case listing of None \<Rightarrow> st | Some files \<Rightarrow> sweep_loop clock files st)"

definition old_enough :: "int \<Rightarrow> child \<Rightarrow> bool" where
  "old_enough clock c = (case mtime c of None \<Rightarrow> False | Some m \<Rightarrow> clock - m > CLEANUP_AGE_MS)"

definition stat_answers :: "child \<Rightarrow> bool" where
  "stat_answers c = (mtime c \<noteq> None)"

definition removable :: "int \<Rightarrow> child \<Rightarrow> bool" where
  "removable clock c = (old_enough clock c \<and> (unlink_ok c \<or> rm_ok c))"

section \<open>The archive packager\<close>

text \<open>
  \<open>createZipFile\<close> of the convert route.  Its synchronous part queues the markdown and
  one file per image on the archiver and writes to the console; the pictographs that
  open the console lines are left out.  Its two event handlers start the cleanup of the
  staged input and the image directory and settle the promise.
\<close>

record image =
  savedPath :: "string option"

datatype archive_entry = Appended string string | FileAdded string string

datatype console_line = Log string | Warn string

record zip_state =
  entries :: "archive_entry list"
  console :: "console_line list"

definition pathCheckPasses :: "string \<Rightarrow> string \<Rightarrow> bool" where
  "pathCheckPasses normalizedImagePath normalizedImageDir =
     (startsWith normalizedImagePath (normalizedImageDir @ ''/'') \<or>
      normalizedImagePath = normalizedImageDir \<or>
      startsWith normalizedImagePath normalizedImageDir)"

definition show_bool :: "bool \<Rightarrow> string" where
  "show_bool b = (if b then ''true'' else ''false'')"

definition savedPath_string :: "image \<Rightarrow> string" where
  "savedPath_string img = (case savedPath img of None \<Rightarrow> [] | Some s \<Rightarrow> s)"

definition add_image :: "string \<Rightarrow> string \<Rightarrow> image \<Rightarrow> zip_state \<Rightarrow> zip_state" where
  "add_image wd imgDir img st =
     (let sp = savedPath_string img;
          absImagePath = resolve wd sp;
          absImageDir = resolve wd imgDir;
          normalizedImagePath = normalize absImagePath;
          normalizedImageDir = normalize absImageDir;
          st1 = st\<lparr>console := console st @
                  [Log (''Path check for image: '' @ basename absImagePath),
                   Log (''  Image path: '' @ normalizedImagePath),
                   Log (''  Expected dir: '' @ normalizedImageDir),
                   Log (''  Starts with expected: '' @
                        show_bool (startsWith normalizedImagePath (normalizedImageDir @ ''/''))),
                   Log (''  Equals expected: '' @
                        show_bool (normalizedImagePath = normalizedImageDir))]\<rparr>;
          st2 = (if \<not> pathCheckPasses normalizedImagePath normalizedImageDir then
                   st1\<lparr>console := console st1 @
                     [Warn ''Image path check failed, but including anyway for debugging:'',
                      Warn (''  Image path: '' @ normalizedImagePath),
                      Warn (''  Expected dir: '' @ normalizedImageDir)]\<rparr>
                 else st1);
          imageName = basename absImagePath
      in st2\<lparr>entries := entries st2 @ [FileAdded absImagePath (''images/'' @ imageName)],
              console := console st2 @ [Log (''Added image to ZIP: '' @ imageName)]\<rparr>)"

fun add_images :: "string \<Rightarrow> string \<Rightarrow> image list \<Rightarrow> zip_state \<Rightarrow> zip_state" where
  "add_images wd imgDir [] st = st"
| "add_images wd imgDir (img # imgs) st = add_images wd imgDir imgs (add_image wd imgDir img st)"

definition createZipFile :: "string \<Rightarrow> string \<Rightarrow> string \<Rightarrow> image list \<Rightarrow> string \<Rightarrow> zip_state" where
  "createZipFile wd markdown originalName images imgDir =
     add_images wd imgDir images
       \<lparr>entries = [Appended markdown (originalName @ ''.md'')], console = []\<rparr>"

definition image_entry :: "string \<Rightarrow> string \<Rightarrow> archive_entry" where
  "image_entry wd sp = FileAdded (resolve wd sp) (''images/'' @ basename (resolve wd sp))"

definition is_appended :: "archive_entry \<Rightarrow> bool" where
  "is_appended en = (case en of Appended content name \<Rightarrow> True | FileAdded src name \<Rightarrow> False)"

definition path_check_warning :: console_line where
  "path_check_warning = Warn ''Image path check failed, but including anyway for debugging:''"

text \<open>
  The handlers.  \<open>output.on('close')\<close> and \<open>archive.on('error')\<close> each call
  \<open>cleanupTempFiles\<close> and then settle the promise; the caller's \<open>catch\<close> block calls
  \<open>cleanupTempFiles\<close> again when the promise it awaits is rejected.  A run of a request
  is the list of events the streams emit; its trace lists what happens, in order.
\<close>

datatype stream_event = OutputClose | ArchiveError

datatype action =
  Fired stream_event | CleanupStarted | PromiseResolved | PromiseRejected | CatchCleanupStarted

fun handler :: "stream_event \<Rightarrow> action list" where
  "handler OutputClose = [Fired OutputClose, CleanupStarted, PromiseResolved]"
| "handler ArchiveError = [Fired ArchiveError, CleanupStarted, PromiseRejected]"

fun run_events :: "bool \<Rightarrow> stream_event list \<Rightarrow> action list" where
  "run_events settled [] = []"
| "run_events settled (ev # evs) =
     handler ev
     @ (if \<not> settled \<and> ev = ArchiveError then [CatchCleanupStarted] else [])
     @ run_events True evs"

definition archive_request_trace :: "stream_event list \<Rightarrow> action list" where
  "archive_request_trace evs = run_events False evs"

fun cleanup_after_close :: "bool \<Rightarrow> action list \<Rightarrow> bool" where
  "cleanup_after_close closed [] = True"
| "cleanup_after_close closed (a # as) =
     (if a = Fired OutputClose then cleanup_after_close True as
      else if a = CleanupStarted \<or> a = CatchCleanupStarted then closed \<and> cleanup_after_close closed as
      else cleanup_after_close closed as)"

section \<open>Path segments\<close>

definition plain_segment :: "string \<Rightarrow> bool" where
  "plain_segment seg = (seg \<noteq> [] \<and> seg \<noteq> ''.'' \<and> seg \<noteq> ''..'' \<and> slash \<notin> set seg)"

definition clean_abs :: "string list \<Rightarrow> string \<Rightarrow> bool" where
  "clean_abs cs P = (cs \<noteq> [] \<and> list_all plain_segment cs \<and> P = ''/'' @ join_with ''/'' cs)"

section \<open>Example inputs\<close>

definition example_session :: string where
  "example_session = ''1755063487275-lv57mqx7xzd''"

definition example_env :: env where
  "example_env = \<lparr>VERCEL = Some ''1'', cwd = ''/var/task'', now = 1755063488275\<rparr>"

definition example_local_env :: env where
  "example_local_env = \<lparr>VERCEL = None, cwd = ''/home/app'', now = 1755063488275\<rparr>"

definition example_fs :: filesystem where
  "example_fs p =
     (if p = ''/tmp/1755063487275-lv57mqx7xzd-images/a.png'' then Some (File ''PNG'')
      else if p = ''/home/app/temp/1755063487275-lv57mqx7xzd/images/b.png'' then Some (File ''PNG2'')
      else if p = ''/etc/passwd'' then Some (File ''root:x:0:0'')
      else if p = ''/tmp/9999999999999-forged0-images/a.png'' then Some (File ''PNG3'')
      else None)"

definition example_convert_env :: convert_env where
  "example_convert_env =
     \<lparr>VERCEL = None, cwd = ''/home/app'', now = 1755063488275, VERCEL_ENV = None\<rparr>"

definition example_public_fs :: filesystem where
  "example_public_fs p =
     (if p = ''/home/app/public'' \<or> p = ''/home/app/public/downloads'' then Some Directory
      else None)"

definition example_stale :: child where
  "example_stale =
     \<lparr>child_name = ''1755059886275-old-images'', mtime = Some (1755063488275 - 3601000),
      is_directory = True, unlink_rejects = False, rm_rejects = False\<rparr>"

definition example_recent :: child where
  "example_recent =
     \<lparr>child_name = ''report__1755063487275-lv57mqx7xzd.md'', mtime = Some (1755063488275 - 3599000),
      is_directory = False, unlink_rejects = False, rm_rejects = False\<rparr>"

definition example_locked :: child where
  "example_locked =
     \<lparr>child_name = ''locked.zip'', mtime = Some (1755063488275 - 7200000),
      is_directory = False, unlink_rejects = True, rm_rejects = True\<rparr>"

definition example_dangling :: child where
  "example_dangling =
     \<lparr>child_name = ''dangling-link'', mtime = None,
      is_directory = False, unlink_rejects = False, rm_rejects = False\<rparr>"

definition example_images :: "image list" where
  "example_images =
     [\<lparr>savedPath = Some ''/home/app/temp/1-a-images/images/p.png''\<rparr>,
      \<lparr>savedPath = Some ''/elsewhere/q.png''\<rparr>]"

section \<open>Facts about the path library\<close>

lemma split_on_nonempty: "split_on c xs \<noteq> []"
  by (induction xs) (auto split: list.splits)

lemma split_on_no_sep: "c \<notin> set xs \<Longrightarrow> split_on c xs = [xs]"
  by (induction xs) auto

lemma split_on_append: "split_on c (xs @ c # ys) = split_on c xs @ split_on c ys"
  by (induction xs) (auto split: list.splits simp: split_on_nonempty)

lemma join_with_snoc:
  "join_with sep (cs @ [c]) = (if cs = [] then c else join_with sep cs @ sep @ c)"
  by (induction sep cs rule: join_with.induct) auto

lemma join_with_cons:
  "join_with sep (c # cs) = (if cs = [] then c else c @ sep @ join_with sep cs)"
  by (cases cs) auto

lemma split_join:
  "cs \<noteq> [] \<Longrightarrow> \<forall>c\<in>set cs. slash \<notin> set c \<Longrightarrow> split_on slash (join_with ''/'' cs) = cs"
proof (induction cs rule: induct_list012)
  case 1 then show ?case by simp
next
  case (2 x) then show ?case by (simp add: split_on_no_sep)
next
  case (3 x y zs)
  have "split_on slash (x @ slash # join_with ''/'' (y # zs)) = split_on slash x @ split_on slash (join_with ''/'' (y # zs))"
    by (rule split_on_append)
  with 3 show ?case by (simp add: split_on_no_sep slash_def)
qed

lemma foldl_norm_plain:
  "\<forall>c\<in>set cs. plain_segment c \<or> c = ''.'' \<Longrightarrow>
   foldl (norm_step a) res cs = res @ filter (\<lambda>c. c \<noteq> ''.'') cs"
  by (induction cs arbitrary: res) (auto simp: norm_step_def plain_segment_def)

lemma split_on_sep_free: "seg \<in> set (split_on c xs) \<Longrightarrow> c \<notin> set seg"
  by (induction xs arbitrary: seg) (auto split: if_splits list.splits)

lemma norm_step_plain:
  "list_all plain_segment res \<Longrightarrow> slash \<notin> set seg \<Longrightarrow>
   list_all plain_segment (norm_step False res seg)"
  by (auto simp: norm_step_def plain_segment_def list_all_iff dest: in_set_butlastD)

lemma foldl_norm_step_plain:
  "list_all plain_segment res \<Longrightarrow> \<forall>seg\<in>set segs. slash \<notin> set seg \<Longrightarrow>
   list_all plain_segment (foldl (norm_step False) res segs)"
  by (induction segs arbitrary: res) (auto simp: norm_step_plain)

lemma join_with_nonempty:
  "cs \<noteq> [] \<Longrightarrow> \<forall>c\<in>set cs. c \<noteq> [] \<Longrightarrow> join_with sep cs \<noteq> []"
  by (induction sep cs rule: join_with.induct) auto

lemma last_join_with_aux:
  "cs \<noteq> [] \<Longrightarrow> last cs \<noteq> [] \<Longrightarrow>
   join_with sep cs \<noteq> [] \<and> last (join_with sep cs) = last (last cs)"
  by (induction sep cs rule: join_with.induct) auto

lemma last_join_with:
  "cs \<noteq> [] \<Longrightarrow> last cs \<noteq> [] \<Longrightarrow> last (join_with sep cs) = last (last cs)"
  by (simp add: last_join_with_aux)

lemma split_clean_abs:
  "clean_abs cs P \<Longrightarrow> split_on slash P = [] # cs"
  using split_join [of cs]
  by (auto simp: clean_abs_def slash_def plain_segment_def list_all_iff)

lemma normalize_absolute:
  assumes "isAbsolute path" and "last path \<noteq> slash"
    and "foldl (norm_step False) [] (split_on slash path) = segs"
    and "segs \<noteq> []" and "\<forall>c\<in>set segs. c \<noteq> []"
  shows "normalize path = ''/'' @ join_with ''/'' segs"
proof -
  have "path \<noteq> []" using assms(1) by (auto simp: isAbsolute_def)
  moreover have "join_with ''/'' segs \<noteq> []" using assms(4,5) by (rule join_with_nonempty)
  ultimately show ?thesis
    using assms(1,2,3) by (simp add: normalize_def normalizeString_def Let_def)
qed

lemma plain_or_dot:
  "plain_segment s \<or> s = ''.'' \<Longrightarrow> slash \<notin> set s \<and> s \<noteq> []"
  unfolding plain_segment_def slash_def by (elim disjE) simp_all

lemma path_join_clean:
  assumes P: "clean_abs cs P"
    and segs: "segs \<noteq> []" "\<forall>s\<in>set segs. plain_segment s \<or> s = ''.''"
  shows "path_join (P # segs) = ''/'' @ join_with ''/'' (cs @ filter (\<lambda>c. c \<noteq> ''.'') segs)"
proof -
  have Pne: "P \<noteq> []" using P by (simp add: clean_abs_def)
  have ne: "\<forall>s\<in>set segs. s \<noteq> []" using segs(2) plain_or_dot by blast
  have sf: "\<forall>s\<in>set segs. slash \<notin> set s" using segs(2) plain_or_dot by blast
  let ?joined = "P @ ''/'' @ join_with ''/'' segs"
  have filt: "filter (\<lambda>a. a \<noteq> []) (P # segs) = P # segs"
    using Pne ne by (simp add: filter_id_conv)
  have joined: "join_with ''/'' (P # segs) = ?joined"
    using segs(1) by (simp add: join_with_cons)
  have abs: "isAbsolute ?joined" using P by (simp add: clean_abs_def isAbsolute_def slash_def)
  have jne: "join_with ''/'' segs \<noteq> []" using segs(1) ne by (rule join_with_nonempty)
  have "last segs \<in> set segs" using segs(1) by simp
  then have lastseg: "last segs \<noteq> []" "slash \<notin> set (last segs)" using ne sf by auto
  have "last ?joined = last (join_with ''/'' segs)" using jne by simp
  also have "\<dots> = last (last segs)" using segs(1) lastseg(1) by (rule last_join_with)
  finally have "last ?joined \<in> set (last segs)" using lastseg(1) by simp
  then have nolast: "last ?joined \<noteq> slash" using lastseg(2) by auto
  have "split_on slash ?joined = split_on slash P @ split_on slash (join_with ''/'' segs)"
    using split_on_append [of slash P "join_with ''/'' segs"] by (simp add: slash_def)
  also have "\<dots> = ([] # cs) @ segs"
    using split_clean_abs [OF P] split_join [OF segs(1) sf] by simp
  finally have sp: "split_on slash ?joined = [] # cs @ segs" by simp
  have csplain: "\<forall>c\<in>set (cs @ segs). plain_segment c \<or> c = ''.''"
    using P segs(2) by (auto simp: clean_abs_def list_all_iff)
  have "foldl (norm_step False) [] (split_on slash ?joined) = foldl (norm_step False) [] (cs @ segs)"
    unfolding sp by (simp add: norm_step_def)
  also have "\<dots> = filter (\<lambda>c. c \<noteq> ''.'') (cs @ segs)"
    using foldl_norm_plain [OF csplain, of False "[]"] by simp
  also have "\<dots> = cs @ filter (\<lambda>c. c \<noteq> ''.'') segs"
    using P by (auto simp: clean_abs_def list_all_iff plain_segment_def filter_id_conv)
  finally have fold: "foldl (norm_step False) [] (split_on slash ?joined) = cs @ filter (\<lambda>c. c \<noteq> ''.'') segs" .
  have "normalize ?joined = ''/'' @ join_with ''/'' (cs @ filter (\<lambda>c. c \<noteq> ''.'') segs)"
  proof (rule normalize_absolute [OF abs nolast fold])
    show "cs @ filter (\<lambda>c. c \<noteq> ''.'') segs \<noteq> []" using P by (simp add: clean_abs_def)
    show "\<forall>c\<in>set (cs @ filter (\<lambda>c. c \<noteq> ''.'') segs). c \<noteq> []"
      using P ne by (auto simp: clean_abs_def list_all_iff plain_segment_def)
  qed
  moreover have "?joined \<noteq> []" using Pne by simp
  ultimately show ?thesis
    unfolding path_join_def filt joined by (simp add: Let_def)
qed

lemma tempDir_clean:
  assumes "isAbsolute (cwd e)"
  shows "\<exists>cs. clean_abs cs (tempDir e)"
proof (cases "truthy (VERCEL e)")
  case True
  have "clean_abs [''tmp''] ''/tmp''" by (simp add: clean_abs_def plain_segment_def slash_def)
  then show ?thesis using True by (auto simp: tempDir_def)
next
  case False
  let ?c = "cwd e"
  let ?joined = "?c @ ''/'' @ ''temp''"
  let ?R = "foldl (norm_step False) [] (split_on slash ?c)"
  have cne: "?c \<noteq> []" using assms by (auto simp: isAbsolute_def)
  have abs: "isAbsolute ?joined" using assms by (auto simp: isAbsolute_def split: list.splits)
  have nolast: "last ?joined \<noteq> slash" by (simp add: slash_def)
  have "split_on slash ?joined = split_on slash ?c @ split_on slash ''temp''"
    using split_on_append [of slash ?c "''temp''"] by (simp add: slash_def)
  then have sp: "split_on slash ?joined = split_on slash ?c @ [''temp'']"
    by (simp add: slash_def)
  have fold: "foldl (norm_step False) [] (split_on slash ?joined) = ?R @ [''temp'']"
    unfolding sp by (simp add: norm_step_def)
  have Rplain: "list_all plain_segment ?R"
    by (rule foldl_norm_step_plain) (auto dest: split_on_sep_free)
  have plain: "list_all plain_segment (?R @ [''temp''])"
    using Rplain by (simp add: plain_segment_def slash_def)
  have "normalize ?joined = ''/'' @ join_with ''/'' (?R @ [''temp''])"
    by (rule normalize_absolute [OF abs nolast fold])
       (use plain in \<open>auto simp: list_all_iff plain_segment_def\<close>)
  then have "path_join [?c, ''temp''] = ''/'' @ join_with ''/'' (?R @ [''temp''])"
    using cne by (simp add: path_join_def Let_def)
  then have "clean_abs (?R @ [''temp'']) (tempDir e)"
    using False plain by (simp add: clean_abs_def tempDir_def)
  then show ?thesis by blast
qed

section \<open>Facts about session identifiers and base names\<close>

lemma basename_no_slash: "slash \<notin> set (basename p)"
  by (auto simp: basename_def dest: set_takeWhileD)

lemma basename_fixed_no_slash: "basename p = p \<Longrightarrow> slash \<notin> set p"
  using basename_no_slash [of p] by simp

lemma has_slash_basename_differs: "slash \<in> set p \<Longrightarrow> basename p \<noteq> p"
  using basename_fixed_no_slash by blast

lemma includes_str_self: "includes_str s s"
  by (cases s) (simp_all add: startsWith_def)

lemma slash_not_alnum: "\<not> is_alnum slash"
  by (simp add: is_alnum_def alnum_chars_def slash_def)

lemma slash_not_digit: "\<not> is_digit slash"
  by (simp add: is_digit_def digit_chars_def slash_def)

lemma dot_not_digit: "\<not> is_digit CHR ''.''"
  by (simp add: is_digit_def digit_chars_def)

lemma session_valid_chars:
  assumes "session_valid s"
  shows "s \<noteq> []" and "slash \<notin> set s" and "s \<noteq> ''.''" and "s \<noteq> ''..''"
proof -
  let ?ds = "takeWhile is_digit s" and ?rest = "dropWhile is_digit s"
  from assms obtain suffix where ds: "?ds \<noteq> []" and rest: "?rest = CHR ''-'' # suffix"
    and suf: "list_all is_alnum suffix"
    by (auto simp: session_valid_def Let_def split: list.splits)
  show "s \<noteq> []" using ds by auto
  have "set s = set ?ds \<union> set ?rest" by (metis set_append takeWhile_dropWhile_id)
  moreover have "slash \<notin> set ?ds"
    using slash_not_digit by (auto dest!: set_takeWhileD)
  moreover have "slash \<noteq> CHR ''-''" by (simp add: slash_def)
  then have "slash \<notin> set ?rest"
    using suf slash_not_alnum unfolding rest by (auto simp: list_all_iff)
  ultimately show "slash \<notin> set s" by simp
  show "s \<noteq> ''.''" using ds dot_not_digit by auto
  show "s \<noteq> ''..''" using ds dot_not_digit by auto
qed

lemma session_plain: "session_valid s \<Longrightarrow> plain_segment s"
  by (simp add: plain_segment_def session_valid_chars)

lemma session_images_plain:
  assumes "session_valid s" shows "plain_segment (s @ ''-images'')"
proof -
  have "slash \<notin> set (s @ ''-images'')"
    using session_valid_chars(2) [OF assms] by (simp add: slash_def)
  moreover have "s @ ''-images'' \<noteq> x" if "length x < 3" for x
  proof
    assume "s @ ''-images'' = x"
    then have "length (s @ ''-images'') = length x" by (rule arg_cong)
    with that show False by simp
  qed
  then have "s @ ''-images'' \<noteq> ''.''" "s @ ''-images'' \<noteq> ''..''" "s @ ''-images'' \<noteq> []"
    by simp_all
  ultimately show ?thesis by (simp add: plain_segment_def)
qed

section \<open>Resolved paths stay below the session directory\<close>

lemma sep_join_with:
  "rest \<noteq> [] \<Longrightarrow> sep @ join_with sep rest = concat (map (\<lambda>r. sep @ r) rest)"
  by (induction sep rest rule: join_with.induct) auto

lemma join_with_append_tail:
  "cs \<noteq> [] \<Longrightarrow> join_with sep (cs @ rest) = join_with sep cs @ concat (map (\<lambda>r. sep @ r) rest)"
proof (induction sep cs rule: join_with.induct)
  case (1 sep) then show ?case by simp
next
  case (2 sep s) then show ?case by (cases rest) (simp_all add: sep_join_with)
next
  case (3 sep s t ts) then show ?case by simp
qed

lemma startsWith_append: "startsWith (p @ q) p"
  by (simp add: startsWith_def)

lemma safe_name_segment:
  assumes "basename ip = ip" and "\<not> includes_str ip ''..''" and "ip \<noteq> []"
  shows "plain_segment ip \<or> ip = ''.''"
proof -
  have "slash \<notin> set ip" using assms(1) by (rule basename_fixed_no_slash)
  moreover have "ip \<noteq> ''..''" using assms(2) includes_str_self [of "''..''"] by auto
  ultimately show ?thesis using assms(3) unfolding plain_segment_def by blast
qed

lemma in_sandbox:
  assumes T: "clean_abs cs T" and s: "plain_segment s" and sx: "plain_segment (s @ x)"
    and tl_segs: "\<forall>seg\<in>set tl_segs. plain_segment seg \<or> seg = ''.''"
  shows "startsWith (path_join (T # (s @ x) # tl_segs)) (path_join [T, s]) \<and>
         ''..'' \<notin> set (split_on slash (path_join (T # (s @ x) # tl_segs)))"
proof -
  let ?kept = "filter (\<lambda>c. c \<noteq> ''.'') tl_segs"
  have sxdot: "s @ x \<noteq> ''.''" and sdot: "s \<noteq> ''.''"
    using s sx unfolding plain_segment_def by blast+
  have "path_join (T # (s @ x) # tl_segs) =
          ''/'' @ join_with ''/'' (cs @ filter (\<lambda>c. c \<noteq> ''.'') ((s @ x) # tl_segs))"
    by (rule path_join_clean [OF T]) (use sx tl_segs in simp_all)
  then have p: "path_join (T # (s @ x) # tl_segs) = ''/'' @ join_with ''/'' ((cs @ [s @ x]) @ ?kept)"
    using sxdot by simp
  have "path_join [T, s] = ''/'' @ join_with ''/'' (cs @ filter (\<lambda>c. c \<noteq> ''.'') [s])"
    by (rule path_join_clean [OF T]) (use s in simp_all)
  then have root: "path_join [T, s] = ''/'' @ join_with ''/'' (cs @ [s])"
    using sdot by simp
  have csne: "cs \<noteq> []" using T by (simp add: clean_abs_def)
  have "join_with ''/'' ((cs @ [s @ x]) @ ?kept) =
          join_with ''/'' (cs @ [s @ x]) @ concat (map (\<lambda>r. ''/'' @ r) ?kept)"
    by (rule join_with_append_tail) simp
  also have "join_with ''/'' (cs @ [s @ x]) = join_with ''/'' (cs @ [s]) @ x"
    using csne by (simp add: join_with_snoc)
  finally have "path_join (T # (s @ x) # tl_segs) =
      path_join [T, s] @ (x @ concat (map (\<lambda>r. ''/'' @ r) ?kept))"
    unfolding p root by simp
  then have pre: "startsWith (path_join (T # (s @ x) # tl_segs)) (path_join [T, s])"
    using startsWith_append by simp
  have "\<forall>c\<in>set cs. plain_segment c"
    using T by (simp add: clean_abs_def list_all_iff)
  moreover have "\<forall>c\<in>set ?kept. plain_segment c"
    using tl_segs by fastforce
  ultimately have allplain: "\<forall>c\<in>set ((cs @ [s @ x]) @ ?kept). plain_segment c"
    using sx by (simp add: ball_Un)
  then have sf: "\<forall>c\<in>set ((cs @ [s @ x]) @ ?kept). slash \<notin> set c"
    unfolding plain_segment_def by blast
  have "split_on slash (''/'' @ join_with ''/'' ((cs @ [s @ x]) @ ?kept)) =
          split_on slash [] @ split_on slash (join_with ''/'' ((cs @ [s @ x]) @ ?kept))"
    using split_on_append [of slash "[]"] by (simp add: slash_def)
  also have "\<dots> = [] # ((cs @ [s @ x]) @ ?kept)"
    using split_join [OF _ sf] by simp
  finally have "set (split_on slash (path_join (T # (s @ x) # tl_segs))) =
      insert [] (set ((cs @ [s @ x]) @ ?kept))"
    unfolding p by simp
  moreover have "''..'' \<notin> set ((cs @ [s @ x]) @ ?kept)"
    using allplain unfolding plain_segment_def by blast
  ultimately have "''..'' \<notin> set (split_on slash (path_join (T # (s @ x) # tl_segs)))"
    by simp
  with pre show ?thesis by simp
qed

lemma candidate_in_sandbox:
  assumes abs: "isAbsolute (cwd e)" and valid: "session_valid s"
    and ip: "basename ip = ip" "\<not> includes_str ip ''..''" "ip \<noteq> []"
    and p: "p \<in> set (path_join [tempDir e, s @ ''-images'', ip] # alternativePaths e s ip)"
  shows "startsWith p (path_join [tempDir e, s]) \<and> ''..'' \<notin> set (split_on slash p)"
proof -
  from tempDir_clean [OF abs] obtain cs where T: "clean_abs cs (tempDir e)" by blast
  have s: "plain_segment s" and si: "plain_segment (s @ ''-images'')"
    using valid by (simp_all add: session_plain session_images_plain)
  have seg: "plain_segment ip \<or> ip = ''.''" using ip by (rule safe_name_segment)
  have img: "plain_segment ''images''" by (simp add: plain_segment_def slash_def)
  have c1: "\<forall>seg\<in>set [ip]. plain_segment seg \<or> seg = ''.''" using seg by simp
  have c2: "\<forall>seg\<in>set [''images'', ip]. plain_segment seg \<or> seg = ''.''" using seg img by simp
  have s0: "plain_segment (s @ [])" using s by simp
  note a = in_sandbox [OF T s si c1] in_sandbox [OF T s si c2]
           in_sandbox [OF T s s0 c2] in_sandbox [OF T s s0 c1]
  from p consider "p = path_join [tempDir e, s @ ''-images'', ip]"
    | "p = path_join [tempDir e, s @ ''-images'', ''images'', ip]"
    | "p = path_join [tempDir e, s, ''images'', ip]"
    | "p = path_join [tempDir e, s, ip]"
    by (auto simp: alternativePaths_def)
  then show ?thesis using a by cases simp_all
qed

lemma read_and_serve_served:
  "served (read_and_serve fs q probes) = Some p \<Longrightarrow>
   p = q \<and> status (read_and_serve fs q probes) = 200 \<and> (\<exists>bytes. fs p = Some (File bytes))"
  by (auto simp: read_and_serve_def respond_def split: option.splits fs_entry.splits)

lemma resolve_and_serve_served:
  assumes "served (resolve_and_serve e fs ip s) = Some p"
  shows "basename ip = ip \<and> \<not> includes_str ip ''..'' \<and>
         status (resolve_and_serve e fs ip s) = 200 \<and>
         p \<in> set (path_join [tempDir e, s @ ''-images'', ip] # alternativePaths e s ip)"
proof -
  have ok: "basename ip = ip" "\<not> includes_str ip ''..''"
    using assms by (auto simp: resolve_and_serve_def respond_def Let_def split: if_splits)
  let ?full = "path_join [tempDir e, s @ ''-images'', ip]"
  show ?thesis
  proof (cases "existsSync fs ?full")
    case True
    then have eq: "resolve_and_serve e fs ip s = read_and_serve fs ?full [?full, ?full]"
      using ok by (simp add: resolve_and_serve_def Let_def)
    show ?thesis using assms ok read_and_serve_served unfolding eq by fastforce
  next
    case False
    show ?thesis
    proof (cases "find (existsSync fs) (alternativePaths e s ip)")
      case None
      then have "served (resolve_and_serve e fs ip s) = None"
        using ok False by (simp add: resolve_and_serve_def Let_def respond_def)
      with assms show ?thesis by simp
    next
      case (Some q)
      then have q: "q \<in> set (alternativePaths e s ip)"
        by (auto simp: find_Some_iff)
      obtain probes where eq: "resolve_and_serve e fs ip s = read_and_serve fs q probes"
        using ok False Some by (simp add: resolve_and_serve_def Let_def)
      show ?thesis using assms ok q read_and_serve_served unfolding eq by fastforce
    qed
  qed
qed

lemma in_sandbox_shape:
  assumes T: "clean_abs cs T" and s: "plain_segment s" and sx: "plain_segment (s @ x)"
    and tl_segs: "\<forall>seg\<in>set tl_segs. plain_segment seg \<or> seg = ''.''"
  shows "\<exists>rest. path_join (T # (s @ x) # tl_segs) = T @ ''/'' @ (s @ x) @ rest \<and>
                (rest = [] \<or> startsWith rest ''/'')"
proof -
  let ?kept = "filter (\<lambda>c. c \<noteq> ''.'') tl_segs"
  let ?rest = "concat (map (\<lambda>r. ''/'' @ r) ?kept)"
  have sxdot: "s @ x \<noteq> ''.''" using sx unfolding plain_segment_def by blast
  have "path_join (T # (s @ x) # tl_segs) =
          ''/'' @ join_with ''/'' (cs @ filter (\<lambda>c. c \<noteq> ''.'') ((s @ x) # tl_segs))"
    by (rule path_join_clean [OF T]) (use sx tl_segs in simp_all)
  then have p: "path_join (T # (s @ x) # tl_segs) = ''/'' @ join_with ''/'' ((cs @ [s @ x]) @ ?kept)"
    using sxdot by simp
  have csne: "cs \<noteq> []" using T by (simp add: clean_abs_def)
  have "join_with ''/'' ((cs @ [s @ x]) @ ?kept) = join_with ''/'' (cs @ [s @ x]) @ ?rest"
    by (rule join_with_append_tail) simp
  also have "join_with ''/'' (cs @ [s @ x]) = join_with ''/'' cs @ ''/'' @ (s @ x)"
    using csne by (simp add: join_with_snoc)
  finally have eq: "path_join (T # (s @ x) # tl_segs) = T @ ''/'' @ (s @ x) @ ?rest"
    unfolding p using T by (simp add: clean_abs_def)
  have "?rest = [] \<or> startsWith ?rest ''/''"
    by (cases ?kept) (simp_all add: startsWith_def)
  with eq show ?thesis by blast
qed

lemma candidate_shape:
  assumes abs: "isAbsolute (cwd e)" and valid: "session_valid s"
    and ip: "basename ip = ip" "\<not> includes_str ip ''..''" "ip \<noteq> []"
    and p: "p \<in> set (path_join [tempDir e, s @ ''-images'', ip] # alternativePaths e s ip)"
  shows "\<exists>d rest. (d = s @ ''-images'' \<or> d = s) \<and> p = tempDir e @ ''/'' @ d @ rest \<and>
                  (rest = [] \<or> startsWith rest ''/'')"
proof -
  from tempDir_clean [OF abs] obtain cs where T: "clean_abs cs (tempDir e)" by blast
  have s: "plain_segment s" and si: "plain_segment (s @ ''-images'')"
    using valid by (simp_all add: session_plain session_images_plain)
  have seg: "plain_segment ip \<or> ip = ''.''" using ip by (rule safe_name_segment)
  have img: "plain_segment ''images''" by (simp add: plain_segment_def slash_def)
  have c1: "\<forall>seg\<in>set [ip]. plain_segment seg \<or> seg = ''.''" using seg by simp
  have c2: "\<forall>seg\<in>set [''images'', ip]. plain_segment seg \<or> seg = ''.''" using seg img by simp
  have s0: "plain_segment (s @ [])" using s by simp
  note a = in_sandbox_shape [OF T s si c1] in_sandbox_shape [OF T s si c2]
           in_sandbox_shape [OF T s s0 c2] in_sandbox_shape [OF T s s0 c1]
  from p consider "p = path_join [tempDir e, s @ ''-images'', ip]"
    | "p = path_join [tempDir e, s @ ''-images'', ''images'', ip]"
    | "p = path_join [tempDir e, s, ''images'', ip]"
    | "p = path_join [tempDir e, s, ip]"
    by (auto simp: alternativePaths_def)
  then show ?thesis
  proof cases
    case 1 then show ?thesis using a(1) by auto
  next
    case 2 then show ?thesis using a(2) by auto
  next
    case 3 then show ?thesis using a(3) by auto
  next
    case 4 then show ?thesis using a(4) by auto
  qed
qed

lemma sandbox_root:
  assumes abs: "isAbsolute (cwd e)" and valid: "session_valid s"
  shows "path_join [tempDir e, s] = tempDir e @ ''/'' @ s"
proof -
  from tempDir_clean [OF abs] obtain cs where T: "clean_abs cs (tempDir e)" by blast
  have s: "plain_segment s" using valid by (rule session_plain)
  then have sdot: "s \<noteq> ''.''" unfolding plain_segment_def by blast
  have "path_join [tempDir e, s] = ''/'' @ join_with ''/'' (cs @ filter (\<lambda>c. c \<noteq> ''.'') [s])"
    by (rule path_join_clean [OF T]) (use s in simp_all)
  then have "path_join [tempDir e, s] = ''/'' @ join_with ''/'' (cs @ [s])"
    using sdot by simp
  also have "\<dots> = (''/'' @ join_with ''/'' cs) @ ''/'' @ s"
    using T by (simp add: join_with_snoc clean_abs_def)
  finally show ?thesis using T by (simp add: clean_abs_def)
qed

section \<open>The image route rejects traversal\<close>

lemma GET_bad_path:
  assumes "basename ip \<noteq> ip \<or> includes_str (basename ip) ''..''"
  shows "served (GET e fs (Some ip) (Some s)) = None \<and> consulted (GET e fs (Some ip) (Some s)) = []"
  using assms by (auto simp: GET_def resolve_and_serve_def respond_def Let_def)

lemma GET_served:
  assumes "served (GET e fs (Some ip) (Some s)) = Some p"
  shows "session_valid s \<and> ip \<noteq> [] \<and> GET e fs (Some ip) (Some s) = resolve_and_serve e fs ip s"
  using assms by (auto simp: GET_def respond_def split: if_splits)

text \<open>
  Claim C1.  A requested path that has a directory component (a slash), whose base name
  differs from it, or whose base name contains \<open>..\<close>, is never served and no path is
  looked up for it; when the session is valid and not expired the answer is 403
  \<open>Invalid path\<close>.  Every path that is served lies in the session's sandbox: it starts
  with the temporary directory joined with the session id, it is the session's
  directory \<open><id>-images\<close> or \<open><id>\<close> in the temporary directory or a path below it,
  and none of its segments is \<open>..\<close>.  The working directory of the process is an
  absolute path.
\<close>

theorem served_path_stays_in_sandbox:
  assumes "isAbsolute (cwd e)"
  shows "(session_valid s \<and> \<not> expired e s \<and> ip \<noteq> [] \<and>
            (basename ip \<noteq> ip \<or> includes_str (basename ip) ''..'')
          \<longrightarrow> GET e fs (Some ip) (Some s) = respond 403 ''Invalid path'' [])
       \<and> (slash \<in> set ip \<longrightarrow> basename ip \<noteq> ip)
       \<and> (basename ip \<noteq> ip \<or> includes_str (basename ip) ''..''
          \<longrightarrow> served (GET e fs (Some ip) (Some s)) = None \<and>
              consulted (GET e fs (Some ip) (Some s)) = [])
       \<and> (served (GET e fs (Some ip) (Some s)) = Some p
          \<longrightarrow> status (GET e fs (Some ip) (Some s)) = 200 \<and>
              basename ip = ip \<and> \<not> includes_str ip ''..'' \<and>
              path_join [tempDir e, s] = tempDir e @ ''/'' @ s \<and>
              startsWith p (path_join [tempDir e, s]) \<and>
              (\<exists>d rest. (d = s @ ''-images'' \<or> d = s) \<and>
                 p = tempDir e @ ''/'' @ d @ rest \<and> (rest = [] \<or> startsWith rest ''/'')) \<and>
              ''..'' \<notin> set (split_on slash p))"
proof (intro conjI impI)
  assume "session_valid s \<and> \<not> expired e s \<and> ip \<noteq> [] \<and>
            (basename ip \<noteq> ip \<or> includes_str (basename ip) ''..'')"
  then show "GET e fs (Some ip) (Some s) = respond 403 ''Invalid path'' []"
    using session_valid_chars(1) [of s]
    by (auto simp: GET_def resolve_and_serve_def Let_def)
next
  assume "slash \<in> set ip"
  then show "basename ip \<noteq> ip" by (rule has_slash_basename_differs)
next
  assume bad: "basename ip \<noteq> ip \<or> includes_str (basename ip) ''..''"
  then show "served (GET e fs (Some ip) (Some s)) = None"
    and "consulted (GET e fs (Some ip) (Some s)) = []"
    using GET_bad_path by blast+
next
  assume sv: "served (GET e fs (Some ip) (Some s)) = Some p"
  from GET_served [OF sv] have valid: "session_valid s" and ne: "ip \<noteq> []"
    and eq: "GET e fs (Some ip) (Some s) = resolve_and_serve e fs ip s" by simp_all
  from sv have "served (resolve_and_serve e fs ip s) = Some p" by (simp add: eq)
  from resolve_and_serve_served [OF this]
  have ok: "basename ip = ip" "\<not> includes_str ip ''..''"
    and st: "status (resolve_and_serve e fs ip s) = 200"
    and p: "p \<in> set (path_join [tempDir e, s @ ''-images'', ip] # alternativePaths e s ip)"
    by simp_all
  show "status (GET e fs (Some ip) (Some s)) = 200" using st by (simp add: eq)
  show "basename ip = ip" by (rule ok)
  show "\<not> includes_str ip ''..''" by (rule ok)
  show "path_join [tempDir e, s] = tempDir e @ ''/'' @ s" using assms valid by (rule sandbox_root)
  show "\<exists>d rest. (d = s @ ''-images'' \<or> d = s) \<and>
                 p = tempDir e @ ''/'' @ d @ rest \<and> (rest = [] \<or> startsWith rest ''/'')"
    using assms valid ok ne p by (rule candidate_shape)
  from candidate_in_sandbox [OF assms valid ok ne p]
  show "startsWith p (path_join [tempDir e, s])" and "''..'' \<notin> set (split_on slash p)"
    by simp_all
qed

text \<open>
  The theorem at a request for \<open>../../etc/passwd\<close>, which is refused, and at a request
  for \<open>b.png\<close>, which is found in the third layout.
\<close>

theorem served_path_stays_in_sandbox_witness:
  "isAbsolute (cwd example_local_env) \<and>
   session_valid example_session \<and> \<not> expired example_local_env example_session \<and>
   slash \<in> set ''../../etc/passwd'' \<and>
   basename ''../../etc/passwd'' \<noteq> ''../../etc/passwd'' \<and>
   GET example_local_env example_fs (Some ''../../etc/passwd'') (Some example_session)
     = respond 403 ''Invalid path'' [] \<and>
   served (GET example_local_env example_fs (Some ''../../etc/passwd'') (Some example_session)) = None \<and>
   served (GET example_local_env example_fs (Some ''b.png'') (Some example_session))
     = Some ''/home/app/temp/1755063487275-lv57mqx7xzd/images/b.png'' \<and>
   status (GET example_local_env example_fs (Some ''b.png'') (Some example_session)) = 200 \<and>
   startsWith ''/home/app/temp/1755063487275-lv57mqx7xzd/images/b.png''
     (path_join [tempDir example_local_env, example_session]) \<and>
   ''..'' \<notin> set (split_on slash ''/home/app/temp/1755063487275-lv57mqx7xzd/images/b.png'')"
proof -
  have a: "isAbsolute (cwd example_local_env)" by code_simp
  have v: "session_valid example_session" by code_simp
  have f: "\<not> expired example_local_env example_session" by code_simp
  have sl: "slash \<in> set ''../../etc/passwd''" by code_simp
  have sv: "served (GET example_local_env example_fs (Some ''b.png'') (Some example_session))
     = Some ''/home/app/temp/1755063487275-lv57mqx7xzd/images/b.png''" by code_simp
  note bad = served_path_stays_in_sandbox [OF a, of example_session "''../../etc/passwd''" example_fs]
  note good = served_path_stays_in_sandbox [OF a, of example_session "''b.png''" example_fs
      "''/home/app/temp/1755063487275-lv57mqx7xzd/images/b.png''"]
  have b1: "basename ''../../etc/passwd'' \<noteq> ''../../etc/passwd''" using bad sl by blast
  have b2: "GET example_local_env example_fs (Some ''../../etc/passwd'') (Some example_session)
     = respond 403 ''Invalid path'' []" using bad v f b1 by blast
  have b3: "served (GET example_local_env example_fs (Some ''../../etc/passwd'') (Some example_session)) = None"
    using bad b1 by blast
  show ?thesis using a v f sl b1 b2 b3 sv good by blast
qed

section \<open>Sessions dated in the future\<close>

lemma dash_not_digit: "\<not> is_digit CHR ''-''"
  by (simp add: is_digit_def digit_chars_def)

lemma session_valid_timestamp:
  assumes "session_valid s"
  shows "\<exists>t. session_timestamp s = Some t"
proof -
  let ?ds = "takeWhile is_digit s" and ?rest = "dropWhile is_digit s"
  from assms obtain suffix where ds: "?ds \<noteq> []" and rest: "?rest = CHR ''-'' # suffix"
    by (auto simp: session_valid_def Let_def split: list.splits)
  have s: "s = ?ds @ CHR ''-'' # suffix" using rest by (metis takeWhile_dropWhile_id)
  have "CHR ''-'' \<notin> set ?ds" using dash_not_digit by (auto dest!: set_takeWhileD)
  then have "split_on (CHR ''-'') ?ds = [?ds]" by (rule split_on_no_sep)
  then have "split_on (CHR ''-'') (?ds @ CHR ''-'' # suffix) = ?ds # split_on (CHR ''-'') suffix"
    by (simp add: split_on_append)
  then have sp: "split_on (CHR ''-'') s = ?ds # split_on (CHR ''-'') suffix" using s by simp
  have "takeWhile is_digit ?ds = ?ds" by simp
  then have "parseInt ?ds \<noteq> None" using ds by (simp add: parseInt_def Let_def)
  then show ?thesis by (auto simp: session_timestamp_def sp)
qed

lemma read_and_serve_status: "status (read_and_serve fs q probes) \<in> {200, 500}"
  by (auto simp: read_and_serve_def respond_def split: option.splits fs_entry.splits)

lemma resolve_and_serve_status: "status (resolve_and_serve e fs ip s) \<in> {200, 403, 404, 500}"
proof -
  have r: "\<And>q probes. status (read_and_serve fs q probes) = 200 \<or> status (read_and_serve fs q probes) = 500"
    using read_and_serve_status by auto
  show ?thesis
    unfolding resolve_and_serve_def Let_def
    using r by (auto simp: respond_def split: option.splits)
qed

lemma GET_fresh:
  "session_valid s \<Longrightarrow> ip \<noteq> [] \<Longrightarrow> \<not> expired e s \<Longrightarrow>
   GET e fs (Some ip) (Some s) = resolve_and_serve e fs ip s"
  using session_valid_chars(1) [of s] by (simp add: GET_def)

lemma GET_expired:
  "session_valid s \<Longrightarrow> ip \<noteq> [] \<Longrightarrow> expired e s \<Longrightarrow>
   GET e fs (Some ip) (Some s) =
     \<lparr>status = 410, body = ''Session expired'', served = None, consulted = [],
      cleanup_scheduled = Some (path_join [tempDir e, s @ ''-images''])\<rparr>"
  using session_valid_chars(1) [of s] by (simp add: GET_def respond_def)

lemma GET_single_fresh:
  "session_valid s \<Longrightarrow> ip \<noteq> [] \<Longrightarrow> \<not> expired e s \<Longrightarrow>
   GET_single e fs (Some ip) (Some s) = resolve_and_serve_single e fs ip s"
  using session_valid_chars(1) [of s] by (simp add: GET_single_def)

lemma resolve_and_serve_single_status:
  "status (resolve_and_serve_single e fs ip s) \<in> {200, 403, 404, 500}"
proof -
  have r: "\<And>q probes. status (read_and_serve fs q probes) = 200 \<or> status (read_and_serve fs q probes) = 500"
    using read_and_serve_status by auto
  show ?thesis
    unfolding resolve_and_serve_single_def Let_def
    using r by (auto simp: respond_def)
qed

text \<open>
  Claim C10.  A session id that passes the format check and whose timestamp lies after
  the clock is never classified as expired, however far in the future the timestamp
  is: the answer is not 410 and is the one path resolution gives, in both copies of
  the route.  When the requested name is a plain base name and the image exists in the
  primary layout, it is served.
\<close>

theorem future_session_passes_expiry:
  assumes "session_valid s" and "ip \<noteq> []" and "session_timestamp s = Some t" and "t > now e"
  shows "\<not> expired e s \<and> status (GET e fs (Some ip) (Some s)) \<noteq> 410 \<and>
         GET e fs (Some ip) (Some s) = resolve_and_serve e fs ip s \<and>
         status (GET_single e fs (Some ip) (Some s)) \<noteq> 410 \<and>
         GET_single e fs (Some ip) (Some s) = resolve_and_serve_single e fs ip s \<and>
         (basename ip = ip \<and> \<not> includes_str ip ''..'' \<and>
          fs (path_join [tempDir e, s @ ''-images'', ip]) = Some (File bytes)
          \<longrightarrow> status (GET e fs (Some ip) (Some s)) = 200 \<and>
              body (GET e fs (Some ip) (Some s)) = bytes)"
proof -
  have ne: "\<not> expired e s" using assms(3,4) by (simp add: expired_def maxAge_def)
  have eq: "GET e fs (Some ip) (Some s) = resolve_and_serve e fs ip s"
    using GET_fresh [OF assms(1,2) ne] .
  have "status (resolve_and_serve e fs ip s) \<noteq> 410"
    using resolve_and_serve_status [of e fs ip s] by auto
  moreover have "basename ip = ip \<and> \<not> includes_str ip ''..'' \<and>
          fs (path_join [tempDir e, s @ ''-images'', ip]) = Some (File bytes)
          \<longrightarrow> status (resolve_and_serve e fs ip s) = 200 \<and>
              body (resolve_and_serve e fs ip s) = bytes"
    by (simp add: resolve_and_serve_def Let_def existsSync_def read_and_serve_def)
  moreover have "GET_single e fs (Some ip) (Some s) = resolve_and_serve_single e fs ip s"
    using GET_single_fresh [OF assms(1,2) ne] .
  moreover have "status (resolve_and_serve_single e fs ip s) \<noteq> 410"
    using resolve_and_serve_single_status [of e fs ip s] by auto
  ultimately show ?thesis using ne eq by simp
qed

text \<open>The theorem at a forged session id dated in the year 2286.\<close>

theorem future_session_passes_expiry_witness:
  "session_valid ''9999999999999-forged0'' \<and>
   session_timestamp ''9999999999999-forged0'' = Some 9999999999999 \<and>
   9999999999999 > now example_env \<and>
   \<not> expired example_env ''9999999999999-forged0'' \<and>
   GET example_env example_fs (Some ''a.png'') (Some ''9999999999999-forged0'')
     = resolve_and_serve example_env example_fs ''a.png'' ''9999999999999-forged0'' \<and>
   basename ''a.png'' = ''a.png'' \<and> \<not> includes_str ''a.png'' ''..'' \<and>
   example_fs (path_join [tempDir example_env, ''9999999999999-forged0'' @ ''-images'', ''a.png'']) = Some (File ''PNG3'') \<and>
   status (GET example_env example_fs (Some ''a.png'') (Some ''9999999999999-forged0'')) = 200 \<and>
   body (GET example_env example_fs (Some ''a.png'') (Some ''9999999999999-forged0'')) = ''PNG3''"
proof -
  have v: "session_valid ''9999999999999-forged0''" by code_simp
  have ne: "''a.png'' \<noteq> []" by simp
  have t: "session_timestamp ''9999999999999-forged0'' = Some 9999999999999" by code_simp
  have fut: "9999999999999 > now example_env" by code_simp
  have b: "basename ''a.png'' = ''a.png''" by code_simp
  have i: "\<not> includes_str ''a.png'' ''..''" by code_simp
  have f: "example_fs (path_join [tempDir example_env, ''9999999999999-forged0'' @ ''-images'', ''a.png'']) = Some (File ''PNG3'')"
    by code_simp
  note th = future_session_passes_expiry [OF v ne t fut, of example_fs "''PNG3''"]
  show ?thesis using th v t fut b i f by blast
qed

section \<open>The generator and the output mode\<close>

lemma digit_chars_nth: "n < 10 \<Longrightarrow> is_digit (digit_chars ! n)"
  unfolding is_digit_def by (rule nth_mem) (simp add: digit_chars_def)

lemma decimal_digits: "decimal n \<noteq> [] \<and> list_all is_digit (decimal n)"
proof (induction n rule: decimal.induct)
  case (1 n)
  show ?case
  proof (cases "n < 10")
    case True
    then show ?thesis by (simp add: digit_chars_nth)
  next
    case False
    have "n mod 10 < 10" by simp
    then have "is_digit (digit_chars ! (n mod 10))" by (rule digit_chars_nth)
    with False 1 show ?thesis by (subst (1 2) decimal.simps) simp
  qed
qed

lemma base36_alnum: "c \<in> set base36_chars \<Longrightarrow> is_alnum c"
  unfolding is_alnum_def base36_chars_def alnum_chars_def by (simp, elim disjE) simp_all

lemma base36_count: "distinct base36_chars \<and> length base36_chars = 36"
  by (simp add: base36_chars_def)

lemma digits_then_dash:
  assumes "list_all is_digit ds"
  shows "takeWhile is_digit (ds @ CHR ''-'' # suffix) = ds"
    and "dropWhile is_digit (ds @ CHR ''-'' # suffix) = CHR ''-'' # suffix"
proof -
  have nd: "\<not> is_digit CHR ''-''" by (simp add: is_digit_def digit_chars_def)
  have all: "\<forall>c\<in>set ds. is_digit c" using assms by (simp add: list_all_iff)
  show "takeWhile is_digit (ds @ CHR ''-'' # suffix) = ds"
    using all nd by (simp add: takeWhile_tail)
  show "dropWhile is_digit (ds @ CHR ''-'' # suffix) = CHR ''-'' # suffix"
    using all nd by (simp add: dropWhile_append3)
qed

text \<open>
  Claim C3, as amended.  For every clock value and every non-zero random value, the
  generated identifier is the decimal timestamp, a hyphen and the random suffix; it
  matches the format \<open>^\d+-[A-Za-z0-9]+$\<close>, and the suffix has at least one character,
  each drawn from the 36 symbols \<open>0-9a-z\<close>.
\<close>

theorem generated_id_format:
  assumes "radix36_rendering rnd" and "rnd \<noteq> ''0''"
  shows "session_valid (fileId clock rnd) \<and>
         fileId clock rnd = decimal clock @ ''-'' @ randomSuffix rnd \<and>
         1 \<le> length (randomSuffix rnd) \<and>
         set (randomSuffix rnd) \<subseteq> set base36_chars \<and>
         distinct base36_chars \<and> length base36_chars = 36"
proof -
  let ?suffix = "randomSuffix rnd"
  from assms have ne: "?suffix \<noteq> []" and all: "list_all (\<lambda>c. c \<in> set base36_chars) ?suffix"
    by (auto simp: radix36_rendering_def randomSuffix_def)
  have alnum: "list_all is_alnum ?suffix"
    using all base36_alnum by (auto simp: list_all_iff)
  have d: "decimal clock \<noteq> []" "list_all is_digit (decimal clock)"
    using decimal_digits by simp_all
  have id: "fileId clock rnd = decimal clock @ CHR ''-'' # ?suffix"
    by (simp add: fileId_def)
  have "session_valid (decimal clock @ CHR ''-'' # ?suffix)"
    unfolding session_valid_def Let_def digits_then_dash [OF d(2)]
    using d(1) ne alnum by simp
  then have "session_valid (fileId clock rnd)" by (simp add: id)
  moreover have "1 \<le> length ?suffix" using ne by (cases ?suffix) simp_all
  moreover have "set ?suffix \<subseteq> set base36_chars" using all by (auto simp: list_all_iff)
  ultimately show ?thesis using base36_count by (simp add: fileId_def)
qed

text \<open>The theorem at the identifier of the file kept under \<open>public/downloads\<close>.\<close>

theorem generated_id_format_witness:
  "radix36_rendering ''0.lv57mqx7xzd'' \<and> ''0.lv57mqx7xzd'' \<noteq> ''0'' \<and>
   session_valid (fileId 1755063487275 ''0.lv57mqx7xzd'') \<and>
   fileId 1755063487275 ''0.lv57mqx7xzd'' = ''1755063487275-lv57mqx7xzd'' \<and>
   1 \<le> length (randomSuffix ''0.lv57mqx7xzd'')"
proof -
  have r: "radix36_rendering ''0.lv57mqx7xzd''" by code_simp
  have n: "''0.lv57mqx7xzd'' \<noteq> ''0''" by simp
  have e: "fileId 1755063487275 ''0.lv57mqx7xzd'' = ''1755063487275-lv57mqx7xzd''"
    by (simp add: fileId_def randomSuffix_def digit_chars_def)
  note th = generated_id_format [OF r n, of 1755063487275]
  have sv: "session_valid (fileId 1755063487275 ''0.lv57mqx7xzd'')" using th by blast
  have ln: "1 \<le> length (randomSuffix ''0.lv57mqx7xzd'')" using th by blast
  show ?thesis using r n sv e ln by blast
qed

text \<open>
  Claim C3 as stated asks for a suffix of six characters or more at every random value.
  At the random value one half the rendering is \<open>0.i\<close> and the suffix is the single
  character \<open>i\<close>.
\<close>

theorem short_suffix_counterexample:
  "radix36_rendering ''0.i'' \<and>
   fileId 1755063487275 ''0.i'' = ''1755063487275-i'' \<and>
   randomSuffix ''0.i'' = ''i'' \<and>
   \<not> 6 \<le> length (randomSuffix ''0.i'')"
  by (simp add: radix36_rendering_def base36_chars_def fileId_def randomSuffix_def digit_chars_def)

text \<open>At the random value zero the rendering is \<open>0\<close> and the suffix is empty.\<close>

lemma empty_suffix_at_zero:
  "radix36_rendering ''0'' \<and> fileId 1755063487275 ''0'' = ''1755063487275-'' \<and>
   \<not> session_valid (fileId 1755063487275 ''0'')"
  by (simp add: radix36_rendering_def fileId_def randomSuffix_def digit_chars_def
        session_valid_def is_digit_def)

text \<open>
  The last operand of the probe is the constant \<open>true\<close>, so the probe is truthy in every
  environment and the inline branch is the one taken.
\<close>

lemma base64_mode_is_forced:
  "js_truthy (shouldUseBase64 e fs) \<and> output_mode_of e fs = InlineMode \<and>
   deliver_markdown e fs base64 filename markdown =
     \<lparr>downloadUrl = ''data:text/markdown;base64,'' @ base64 markdown, written = None\<rparr>"
proof -
  have "js_truthy (shouldUseBase64 e fs)"
    by (simp add: shouldUseBase64_def js_or_def js_truthy_def)
  then show ?thesis by (simp add: output_mode_of_def deliver_markdown_def)
qed

text \<open>
  Claim C4.  The claim has disk mode chosen when the environment does not signal a
  serverless context and the public directory exists.  In that environment the route
  chooses inline mode.
\<close>

theorem local_development_gets_inline_mode:
  "VERCEL example_convert_env = None \<and> VERCEL_ENV example_convert_env = None \<and>
   existsSync example_public_fs (path_join [cwd example_convert_env, ''public'']) \<and>
   shouldUseBase64 example_convert_env example_public_fs = JBool True \<and>
   output_mode_of example_convert_env example_public_fs = InlineMode \<and>
   output_mode_of example_convert_env example_public_fs \<noteq> DiskMode"
  by code_simp

section \<open>The expiry gate of the image route\<close>

lemma digit_value_nth: "d < 10 \<Longrightarrow> digit_value (digit_chars ! d) = int d"
proof -
  assume "d < 10"
  then have "d = 0 \<or> d = 1 \<or> d = 2 \<or> d = 3 \<or> d = 4 \<or> d = 5 \<or> d = 6 \<or>
    d = 7 \<or> d = 8 \<or> d = 9" by arith
  then show ?thesis by (elim disjE) (simp_all add: digit_value_def digit_chars_def)
qed

lemma is_digit_nth: "is_digit c \<Longrightarrow> \<exists>d<10. c = digit_chars ! d"
proof -
  assume "is_digit c"
  then have "c \<in> set digit_chars" by (simp add: is_digit_def)
  then obtain d where "d < length digit_chars" "digit_chars ! d = c"
    by (auto simp: in_set_conv_nth)
  moreover have "length digit_chars = 10" by (simp add: digit_chars_def)
  ultimately show ?thesis by auto
qed

lemma decimal_small: "n < 10 \<Longrightarrow> decimal n = [digit_chars ! n]"
  by (subst decimal.simps) simp

lemma decimal_step: "0 < t \<Longrightarrow> d < 10 \<Longrightarrow> decimal (10 * t + d) = decimal t @ [digit_chars ! d]"
  by (subst decimal.simps) simp

lemma parse_fold_decimal: "foldl (\<lambda>acc c. 10 * acc + digit_value c) 0 (decimal n) = int n"
proof (induction n rule: decimal.induct)
  case (1 n)
  show ?case
  proof (cases "n < 10")
    case True
    then show ?thesis by (simp add: decimal_small digit_value_nth del: decimal.simps)
  next
    case False
    have d: "decimal n = decimal (n div 10) @ [digit_chars ! (n mod 10)]"
      using False by (subst decimal.simps) simp
    have "foldl (\<lambda>acc c. 10 * acc + digit_value c) 0 (decimal n)
            = 10 * int (n div 10) + int (n mod 10)"
      using 1 False by (simp add: d digit_value_nth del: decimal.simps)
    also have "\<dots> = int n" by presburger
    finally show ?thesis .
  qed
qed

lemma parse_fold_zeros:
  "foldl (\<lambda>acc c. 10 * acc + digit_value c) 0 (replicate k (CHR ''0'')) = 0"
  by (induction k) (simp_all add: digit_value_def)

lemma zero_is_digit: "is_digit (CHR ''0'')"
  by (simp add: is_digit_def digit_chars_def)

lemma parseInt_decimal:
  "parseInt (replicate k (CHR ''0'') @ decimal t) = Some (int t)"
proof -
  let ?ds = "replicate k (CHR ''0'') @ decimal t"
  have all: "\<forall>c\<in>set ?ds. is_digit c"
    using decimal_digits [of t] zero_is_digit by (auto simp: list_all_iff simp del: decimal.simps)
  then have tw: "takeWhile is_digit ?ds = ?ds" by (simp add: takeWhile_eq_all_conv del: decimal.simps)
  have ne: "?ds \<noteq> []" using decimal_digits [of t] by (simp del: decimal.simps)
  have fold: "foldl (\<lambda>acc c. 10 * acc + digit_value c) 0 ?ds = int t"
    by (simp add: parse_fold_zeros parse_fold_decimal del: decimal.simps)
  show ?thesis by (simp only: parseInt_def Let_def tw ne fold if_False)
qed

lemma digits_form:
  "ds \<noteq> [] \<Longrightarrow> list_all is_digit ds \<Longrightarrow> \<exists>k t. ds = replicate k (CHR ''0'') @ decimal t"
proof (induction ds rule: rev_induct)
  case Nil
  then show ?case by simp
next
  case (snoc c xs)
  from snoc.prems have "is_digit c" by simp
  then obtain d where d: "d < 10" "c = digit_chars ! d" using is_digit_nth by blast
  show ?case
  proof (cases "xs = []")
    case True
    then have "xs @ [c] = replicate 0 (CHR ''0'') @ decimal d"
      using d by (simp add: decimal_small del: decimal.simps)
    then show ?thesis by blast
  next
    case False
    then obtain k t where xs: "xs = replicate k (CHR ''0'') @ decimal t"
      using snoc by (auto simp del: decimal.simps)
    show ?thesis
    proof (cases "t = 0")
      case True
      have "decimal 0 = [CHR ''0'']" by (simp add: decimal_small digit_chars_def del: decimal.simps)
      then have "xs = replicate (Suc k) (CHR ''0'')"
        using xs True by (simp add: replicate_append_same del: decimal.simps)
      then have "xs @ [c] = replicate (Suc k) (CHR ''0'') @ decimal d"
        using d by (simp add: decimal_small del: decimal.simps)
      then show ?thesis by blast
    next
      case False
      then have "decimal (10 * t + d) = decimal t @ [c]"
        using d by (simp add: decimal_step del: decimal.simps)
      then have "xs @ [c] = replicate k (CHR ''0'') @ decimal (10 * t + d)"
        using xs by (simp del: decimal.simps)
      then show ?thesis by blast
    qed
  qed
qed

lemma session_form:
  assumes "session_valid s"
  shows "\<exists>k t r. s = replicate k (CHR ''0'') @ decimal t @ ''-'' @ r \<and> r \<noteq> [] \<and>
                  list_all is_alnum r \<and> session_timestamp s = Some (int t)"
proof -
  let ?ds = "takeWhile is_digit s" and ?rest = "dropWhile is_digit s"
  from assms obtain r where ds: "?ds \<noteq> []" and rest: "?rest = CHR ''-'' # r"
    and r: "r \<noteq> []" "list_all is_alnum r"
    by (auto simp: session_valid_def Let_def split: list.splits)
  have s: "s = ?ds @ CHR ''-'' # r" using rest by (metis takeWhile_dropWhile_id)
  have "list_all is_digit ?ds" by (auto simp: list_all_iff dest: set_takeWhileD)
  from digits_form [OF ds this] obtain k t where kt: "?ds = replicate k (CHR ''0'') @ decimal t"
    by blast
  have "CHR ''-'' \<notin> set ?ds" using dash_not_digit by (auto dest!: set_takeWhileD)
  then have "split_on (CHR ''-'') ?ds = [?ds]" by (rule split_on_no_sep)
  then have "split_on (CHR ''-'') (?ds @ CHR ''-'' # r) = ?ds # split_on (CHR ''-'') r"
    by (simp add: split_on_append)
  then have "session_timestamp (?ds @ CHR ''-'' # r) = parseInt ?ds"
    by (simp add: session_timestamp_def)
  then have "session_timestamp s = parseInt ?ds" using s by simp
  then have "session_timestamp s = Some (int t)" by (simp add: kt parseInt_decimal del: decimal.simps)
  moreover have "s = replicate k (CHR ''0'') @ decimal t @ ''-'' @ r"
    using s kt by (simp del: decimal.simps)
  ultimately show ?thesis using r by blast
qed


text \<open>
  Claim C2, as amended.  Every session id that passes the format check is a decimal
  timestamp \<open>t\<close> (possibly after leading zeros), a hyphen and a suffix \<open>r\<close>, and the
  handler reads \<open>t\<close> from it.  Presented with a non-empty path parameter, the request is
  answered 410 exactly when \<open>now - t > 3600000\<close>; the 410 answer carries the text
  \<open>Session expired\<close> and no file is read for it, whatever the file system holds; at
  \<open>now - t = 3600000 - 1\<close> the request passes the expiry check and is answered by path
  resolution.  With the path parameter missing or empty the answer is 400
  \<open>Missing parameters\<close>, whatever the age of the session.
\<close>

theorem expiry_gate:
  assumes "session_valid s"
  shows "\<exists>k t r. s = replicate k (CHR ''0'') @ decimal t @ ''-'' @ r \<and> r \<noteq> [] \<and>
           list_all is_alnum r \<and>
           session_timestamp s = Some (int t) \<and>
           (status (GET e fs ipo (Some s)) = 410 \<longleftrightarrow>
              now e - int t > 60 * 60 * 1000 \<and> (\<exists>p. ipo = Some p \<and> p \<noteq> [])) \<and>
           (now e - int t > 60 * 60 * 1000 \<and> ip \<noteq> [] \<longrightarrow>
              GET e fs (Some ip) (Some s) =
                \<lparr>status = 410, body = ''Session expired'', served = None, consulted = [],
                 cleanup_scheduled = Some (path_join [tempDir e, s @ ''-images''])\<rparr>) \<and>
           (now e - int t = 60 * 60 * 1000 - 1 \<and> ip \<noteq> [] \<longrightarrow>
              GET e fs (Some ip) (Some s) = resolve_and_serve e fs ip s \<and>
              status (GET e fs (Some ip) (Some s)) \<noteq> 410) \<and>
           GET e fs None (Some s) = respond 400 ''Missing parameters'' [] \<and>
           GET e fs (Some []) (Some s) = respond 400 ''Missing parameters'' []"
proof -
  from session_form [OF assms] obtain k t r
    where form: "s = replicate k (CHR ''0'') @ decimal t @ ''-'' @ r" "r \<noteq> []"
      "list_all is_alnum r"
    and t: "session_timestamp s = Some (int t)" by blast
  have ex: "expired e s \<longleftrightarrow> now e - int t > 60 * 60 * 1000"
    by (simp add: expired_def t maxAge_def)
  have not410: "status (resolve_and_serve e fs p s) \<noteq> 410" for p
    using resolve_and_serve_status [of e fs p s] by auto
  have some: "status (GET e fs (Some p) (Some s)) = 410 \<longleftrightarrow> expired e s" if "p \<noteq> []" for p
    using GET_fresh [OF assms that, of e fs] GET_expired [OF assms that, of e fs] not410 [of p]
    by (cases "expired e s") simp_all
  have none: "GET e fs None (Some s) = respond 400 ''Missing parameters'' []"
    by (simp add: GET_def)
  have empty: "GET e fs (Some []) (Some s) = respond 400 ''Missing parameters'' []"
    by (simp add: GET_def)
  have iff: "status (GET e fs ipo (Some s)) = 410 \<longleftrightarrow>
              now e - int t > 60 * 60 * 1000 \<and> (\<exists>p. ipo = Some p \<and> p \<noteq> [])"
  proof (cases ipo)
    case None
    then show ?thesis using none by (simp add: respond_def)
  next
    case (Some p)
    show ?thesis
    proof (cases "p = []")
      case True
      then show ?thesis using Some empty by (simp add: respond_def)
    next
      case False
      then show ?thesis using Some some [OF False] ex by simp
    qed
  qed
  have late: "now e - int t > 60 * 60 * 1000 \<and> ip \<noteq> [] \<longrightarrow>
              GET e fs (Some ip) (Some s) =
                \<lparr>status = 410, body = ''Session expired'', served = None, consulted = [],
                 cleanup_scheduled = Some (path_join [tempDir e, s @ ''-images''])\<rparr>"
    using GET_expired [OF assms, of ip e fs] ex by blast
  have early: "now e - int t = 60 * 60 * 1000 - 1 \<and> ip \<noteq> [] \<longrightarrow>
              GET e fs (Some ip) (Some s) = resolve_and_serve e fs ip s \<and>
              status (GET e fs (Some ip) (Some s)) \<noteq> 410"
    using GET_fresh [OF assms, of ip e fs] ex not410 [of ip] by simp
  show ?thesis using form t iff late early none empty by blast
qed

text \<open>
  The theorem for the example session one millisecond past the hour, where the image
  still exists, one millisecond short of it, where the image is served, and at the
  hour exactly.
\<close>

theorem expiry_gate_witness:
  "session_valid example_session \<and>
   example_session = replicate 0 (CHR ''0'') @ decimal 1755063487275 @ ''-'' @ ''lv57mqx7xzd'' \<and>
   session_timestamp example_session = Some (int 1755063487275) \<and>
   now (example_env\<lparr>now := 1755063487275 + 3600001\<rparr>) - 1755063487275 > 60 * 60 * 1000 \<and>
   existsSync example_fs ''/tmp/1755063487275-lv57mqx7xzd-images/a.png'' \<and>
   status (GET (example_env\<lparr>now := 1755063487275 + 3600001\<rparr>) example_fs (Some ''a.png'') (Some example_session)) = 410 \<and>
   GET (example_env\<lparr>now := 1755063487275 + 3600001\<rparr>) example_fs (Some ''a.png'') (Some example_session)
     = \<lparr>status = 410, body = ''Session expired'', served = None, consulted = [],
        cleanup_scheduled = Some ''/tmp/1755063487275-lv57mqx7xzd-images''\<rparr> \<and>
   now (example_env\<lparr>now := 1755063487275 + 3599999\<rparr>) - 1755063487275 = 60 * 60 * 1000 - 1 \<and>
   GET (example_env\<lparr>now := 1755063487275 + 3599999\<rparr>) example_fs (Some ''a.png'') (Some example_session)
     = resolve_and_serve (example_env\<lparr>now := 1755063487275 + 3599999\<rparr>) example_fs ''a.png'' example_session \<and>
   status (GET (example_env\<lparr>now := 1755063487275 + 3599999\<rparr>) example_fs (Some ''a.png'') (Some example_session)) = 200 \<and>
   status (GET (example_env\<lparr>now := 1755063487275 + 3600000\<rparr>) example_fs (Some ''a.png'') (Some example_session)) \<noteq> 410"
proof -
  let ?late = "example_env\<lparr>now := 1755063487275 + 3600001\<rparr>"
  let ?early = "example_env\<lparr>now := 1755063487275 + 3599999\<rparr>"
  let ?edge = "example_env\<lparr>now := 1755063487275 + 3600000\<rparr>"
  have v: "session_valid example_session" by code_simp
  have ts: "session_timestamp example_session = Some 1755063487275" by code_simp
  have shape: "example_session = replicate 0 (CHR ''0'') @ decimal 1755063487275 @ ''-'' @ ''lv57mqx7xzd''"
    by (simp add: example_session_def digit_chars_def)
  have ex: "existsSync example_fs ''/tmp/1755063487275-lv57mqx7xzd-images/a.png''" by code_simp
  have p: "path_join [tempDir ?late, example_session @ ''-images'']
     = ''/tmp/1755063487275-lv57mqx7xzd-images''" by code_simp
  have ok: "status (resolve_and_serve ?early example_fs ''a.png'' example_session) = 200"
    by code_simp
  have ne: "''a.png'' \<noteq> []" by simp
  have g1: "status (GET ?late example_fs (Some ''a.png'') (Some example_session)) = 410"
    and g1': "GET ?late example_fs (Some ''a.png'') (Some example_session)
     = \<lparr>status = 410, body = ''Session expired'', served = None, consulted = [],
        cleanup_scheduled = Some ''/tmp/1755063487275-lv57mqx7xzd-images''\<rparr>"
  proof -
    from expiry_gate [OF v, of ?late example_fs "Some ''a.png''" "''a.png''"]
    obtain t where t: "session_timestamp example_session = Some (int t)"
      and iff: "status (GET ?late example_fs (Some ''a.png'') (Some example_session)) = 410 \<longleftrightarrow>
              now ?late - int t > 60 * 60 * 1000 \<and> (\<exists>p. Some ''a.png'' = Some p \<and> p \<noteq> [])"
      and late: "now ?late - int t > 60 * 60 * 1000 \<and> ''a.png'' \<noteq> [] \<longrightarrow>
              GET ?late example_fs (Some ''a.png'') (Some example_session) =
                \<lparr>status = 410, body = ''Session expired'', served = None, consulted = [],
                 cleanup_scheduled = Some (path_join [tempDir ?late, example_session @ ''-images''])\<rparr>"
      by blast
    have it: "int t = 1755063487275" using t ts by simp
    have gt: "now ?late - int t > 60 * 60 * 1000" by (simp add: it)
    show "status (GET ?late example_fs (Some ''a.png'') (Some example_session)) = 410"
      using iff gt by blast
    show "GET ?late example_fs (Some ''a.png'') (Some example_session)
     = \<lparr>status = 410, body = ''Session expired'', served = None, consulted = [],
        cleanup_scheduled = Some ''/tmp/1755063487275-lv57mqx7xzd-images''\<rparr>"
      using late gt ne p by simp
  qed
  have g2: "GET ?early example_fs (Some ''a.png'') (Some example_session)
     = resolve_and_serve ?early example_fs ''a.png'' example_session"
  proof -
    from expiry_gate [OF v, of ?early example_fs "Some ''a.png''" "''a.png''"]
    obtain t where t: "session_timestamp example_session = Some (int t)"
      and early: "now ?early - int t = 60 * 60 * 1000 - 1 \<and> ''a.png'' \<noteq> [] \<longrightarrow>
              GET ?early example_fs (Some ''a.png'') (Some example_session)
                = resolve_and_serve ?early example_fs ''a.png'' example_session \<and>
              status (GET ?early example_fs (Some ''a.png'') (Some example_session)) \<noteq> 410"
      by blast
    have it: "int t = 1755063487275" using t ts by simp
    have "now ?early - int t = 60 * 60 * 1000 - 1" by (simp add: it)
    then show ?thesis using early ne by blast
  qed
  have g3: "status (GET ?edge example_fs (Some ''a.png'') (Some example_session)) \<noteq> 410"
  proof -
    from expiry_gate [OF v, of ?edge example_fs "Some ''a.png''" "''a.png''"]
    obtain t where t: "session_timestamp example_session = Some (int t)"
      and iff: "status (GET ?edge example_fs (Some ''a.png'') (Some example_session)) = 410 \<longleftrightarrow>
              now ?edge - int t > 60 * 60 * 1000 \<and> (\<exists>p. Some ''a.png'' = Some p \<and> p \<noteq> [])"
      by blast
    have it: "int t = 1755063487275" using t ts by simp
    have "\<not> now ?edge - int t > 60 * 60 * 1000" by (simp add: it)
    then show ?thesis using iff by blast
  qed
  have ts': "session_timestamp example_session = Some (int 1755063487275)" using ts by simp
  have n1: "now ?late - 1755063487275 > 60 * 60 * 1000" by simp
  have n2: "now ?early - 1755063487275 = 60 * 60 * 1000 - 1" by simp
  have s2: "status (GET ?early example_fs (Some ''a.png'') (Some example_session)) = 200"
    using g2 ok by simp
  show ?thesis using v shape ts' n1 ex g1 g1' n2 g2 s2 g3 by blast
qed

text \<open>
  Claim C2 as stated has every request with a valid session id rejected as expired once
  the session is older than the hour.  The handler checks for its two parameters first:
  a request for the expired example session with no path parameter, or an empty one,
  is answered 400.
\<close>

theorem expired_without_path_counterexample:
  "session_valid example_session \<and>
   session_timestamp example_session = Some 1755063487275 \<and>
   now (example_env\<lparr>now := 1755063487275 + 3600001\<rparr>) - 1755063487275 > 60 * 60 * 1000 \<and>
   status (GET (example_env\<lparr>now := 1755063487275 + 3600001\<rparr>) example_fs None (Some example_session)) = 400 \<and>
   status (GET (example_env\<lparr>now := 1755063487275 + 3600001\<rparr>) example_fs (Some []) (Some example_session)) = 400 \<and>
   status (GET (example_env\<lparr>now := 1755063487275 + 3600001\<rparr>) example_fs None (Some example_session)) \<noteq> 410"
  by code_simp

section \<open>The sweep of one directory\<close>

lemma filter_remove1_rejected: "\<not> P c \<Longrightarrow> filter P (remove1 c xs) = filter P xs"
  by (induction xs) auto

lemma sweep_loop_until_stat_rejects:
  "sweep_loop clock files st =
     \<lparr>cleaned = cleaned st + length (filter (removable clock) (takeWhile stat_answers files)),
      removed = removed st @ map child_name (filter (removable clock) (takeWhile stat_answers files)),
      processed = processed st @ map child_name (takeWhile stat_answers files)\<rparr>"
proof (induction files arbitrary: st)
  case Nil
  then show ?case by simp
next
  case (Cons f files)
  show ?case
  proof (cases "mtime f")
    case None
    then show ?thesis by (simp add: stat_answers_def)
  next
    case (Some m)
    then have a: "stat_answers f" by (simp add: stat_answers_def)
    show ?thesis
    proof (cases "clock - m > CLEANUP_AGE_MS \<and> (unlink_ok f \<or> rm_ok f)")
      case True
      then have r: "removable clock f" by (simp add: removable_def old_enough_def Some)
      have "sweep_loop clock (f # files) st =
              sweep_loop clock files (count_removed f (st\<lparr>processed := processed st @ [child_name f]\<rparr>))"
        using True Some by (auto simp: Let_def)
      then show ?thesis using r a by (simp add: Cons.IH count_removed_def)
    next
      case False
      then have r: "\<not> removable clock f" by (auto simp: removable_def old_enough_def Some)
      have "sweep_loop clock (f # files) st =
              sweep_loop clock files (st\<lparr>processed := processed st @ [child_name f]\<rparr>)"
        using False Some by (auto simp: Let_def)
      then show ?thesis using r a by (simp add: Cons.IH)
    qed
  qed
qed

lemma cleanDirectory_until_stat_rejects:
  "cleanDirectory clock (Some files) =
     \<lparr>cleaned = length (filter (removable clock) (takeWhile stat_answers files)),
      removed = map child_name (filter (removable clock) (takeWhile stat_answers files)),
      processed = map child_name (takeWhile stat_answers files)\<rparr>"
  by (simp add: cleanDirectory_def sweep_loop_until_stat_rejects)

lemma takeWhile_all_answer:
  "\<forall>f\<in>set files. mtime f \<noteq> None \<Longrightarrow> takeWhile stat_answers files = files"
  by (simp add: takeWhile_eq_all_conv stat_answers_def)

text \<open>
  Claim C5, as amended.  The sweep processes the children in listing order up to the
  first one for which \<open>stat\<close> rejects.  When a child is older than the retention window
  and both \<open>unlink\<close> and the recursive \<open>rm\<close> reject, the failure is caught: the loop goes
  on to its siblings with the count unchanged, and the child is not removed and not
  counted.  When \<open>stat\<close> answers for every child, every child is processed, and the
  count and the removals are those of the same sweep without the failing child.  A
  rejecting \<open>stat\<close> is not caught per child: the loop ends there with the state reached.
\<close>

theorem removal_failure_is_isolated:
  assumes c: "c \<in> set files" and old: "old_enough clock c"
    and fails: "\<not> unlink_ok c" "\<not> rm_ok c"
    and names: "distinct (map child_name files)"
  shows "sweep_loop clock (c # siblings) st =
           sweep_loop clock siblings (st\<lparr>processed := processed st @ [child_name c]\<rparr>) \<and>
         processed (cleanDirectory clock (Some files)) =
           map child_name (takeWhile stat_answers files) \<and>
         cleaned (cleanDirectory clock (Some files)) =
           length (filter (removable clock) (takeWhile stat_answers files)) \<and>
         removed (cleanDirectory clock (Some files)) =
           map child_name (filter (removable clock) (takeWhile stat_answers files)) \<and>
         child_name c \<notin> set (removed (cleanDirectory clock (Some files))) \<and>
         \<not> removable clock c \<and>
         ((\<forall>f\<in>set files. mtime f \<noteq> None) \<longrightarrow>
            processed (cleanDirectory clock (Some files)) = map child_name files \<and>
            cleaned (cleanDirectory clock (Some files)) =
              cleaned (cleanDirectory clock (Some (remove1 c files))) \<and>
            removed (cleanDirectory clock (Some files)) =
              removed (cleanDirectory clock (Some (remove1 c files)))) \<and>
         (mtime d = None \<longrightarrow> sweep_loop clock (d # siblings) st = st)"
proof -
  have nr: "\<not> removable clock c" using fails by (simp add: removable_def)
  have inj: "inj_on child_name (set files)" using names by (simp add: distinct_map)
  have "child_name c \<notin> child_name ` {f \<in> set files. removable clock f}"
  proof
    assume "child_name c \<in> child_name ` {f \<in> set files. removable clock f}"
    then obtain f where f: "f \<in> set files" "removable clock f" "child_name f = child_name c"
      by auto
    then have "f = c" using inj c by (auto dest: inj_onD)
    with f nr show False by simp
  qed
  moreover have "set (filter (removable clock) (takeWhile stat_answers files))
      \<subseteq> {f \<in> set files. removable clock f}"
    by (auto dest: set_takeWhileD)
  ultimately have notin:
    "child_name c \<notin> set (map child_name (filter (removable clock) (takeWhile stat_answers files)))"
    by auto
  from old obtain m where m: "mtime c = Some m" "clock - m > CLEANUP_AGE_MS"
    by (auto simp: old_enough_def split: option.splits)
  have step: "sweep_loop clock (c # siblings) st =
           sweep_loop clock siblings (st\<lparr>processed := processed st @ [child_name c]\<rparr>)"
    using m fails by (simp add: Let_def)
  have same: "filter (removable clock) (remove1 c files) = filter (removable clock) files"
    using nr by (rule filter_remove1_rejected)
  have all: "processed (cleanDirectory clock (Some files)) = map child_name files \<and>
            cleaned (cleanDirectory clock (Some files)) =
              cleaned (cleanDirectory clock (Some (remove1 c files))) \<and>
            removed (cleanDirectory clock (Some files)) =
              removed (cleanDirectory clock (Some (remove1 c files)))"
    if stats: "\<forall>f\<in>set files. mtime f \<noteq> None"
  proof -
    have stats': "\<forall>f\<in>set (remove1 c files). mtime f \<noteq> None"
      using stats by (meson notin_set_remove1)
    show ?thesis
      by (simp add: cleanDirectory_until_stat_rejects takeWhile_all_answer [OF stats]
            takeWhile_all_answer [OF stats'] same)
  qed
  have abort: "mtime d = None \<longrightarrow> sweep_loop clock (d # siblings) st = st" by simp
  show ?thesis
    using step notin nr all abort by (simp add: cleanDirectory_until_stat_rejects)
qed

text \<open>The theorem for a listing whose second child cannot be removed and whose third
  child is a stale directory, and for a loop that meets a child without \<open>stat\<close>.\<close>

theorem removal_failure_is_isolated_witness:
  "example_locked \<in> set [example_recent, example_locked, example_stale] \<and>
   mtime example_locked \<noteq> None \<and> mtime example_stale \<noteq> None \<and> mtime example_recent \<noteq> None \<and>
   mtime example_dangling = None \<and>
   old_enough 1755063488275 example_locked \<and>
   \<not> unlink_ok example_locked \<and> \<not> rm_ok example_locked \<and>
   distinct (map child_name [example_recent, example_locked, example_stale]) \<and>
   processed (cleanDirectory 1755063488275 (Some [example_recent, example_locked, example_stale]))
     = [''report__1755063487275-lv57mqx7xzd.md'', ''locked.zip'', ''1755059886275-old-images''] \<and>
   removed (cleanDirectory 1755063488275 (Some [example_recent, example_locked, example_stale]))
     = [''1755059886275-old-images''] \<and>
   cleaned (cleanDirectory 1755063488275 (Some [example_recent, example_locked, example_stale])) = 1 \<and>
   sweep_loop 1755063488275 [example_dangling, example_stale]
       \<lparr>cleaned = 0, removed = [], processed = []\<rparr>
     = \<lparr>cleaned = 0, removed = [], processed = []\<rparr>"
proof -
  let ?files = "[example_recent, example_locked, example_stale]"
  have stats: "\<forall>f\<in>set ?files. mtime f \<noteq> None"
    by (simp add: example_recent_def example_locked_def example_stale_def)
  have c: "example_locked \<in> set ?files" by simp
  have old: "old_enough 1755063488275 example_locked" by code_simp
  have f1: "\<not> unlink_ok example_locked" by code_simp
  have f2: "\<not> rm_ok example_locked" by code_simp
  have dg: "mtime example_dangling = None" by (simp add: example_dangling_def)
  have names: "distinct (map child_name ?files)"
    by (simp add: example_recent_def example_locked_def example_stale_def)
  note th = removal_failure_is_isolated [OF c old f1 f2 names,
      of "[example_stale]" "\<lparr>cleaned = 0, removed = [], processed = []\<rparr>" example_dangling]
  have p: "map child_name ?files =
      [''report__1755063487275-lv57mqx7xzd.md'', ''locked.zip'', ''1755059886275-old-images'']"
    by (simp add: example_recent_def example_locked_def example_stale_def)
  have r: "removed (cleanDirectory 1755063488275 (Some (remove1 example_locked ?files)))
      = [''1755059886275-old-images'']" by code_simp
  have n: "cleaned (cleanDirectory 1755063488275 (Some (remove1 example_locked ?files))) = 1"
    by code_simp
  have s1: "mtime example_locked \<noteq> None" "mtime example_stale \<noteq> None" "mtime example_recent \<noteq> None"
    using stats by simp_all
  have allc: "processed (cleanDirectory 1755063488275 (Some ?files)) = map child_name ?files \<and>
      cleaned (cleanDirectory 1755063488275 (Some ?files)) =
        cleaned (cleanDirectory 1755063488275 (Some (remove1 example_locked ?files))) \<and>
      removed (cleanDirectory 1755063488275 (Some ?files)) =
        removed (cleanDirectory 1755063488275 (Some (remove1 example_locked ?files)))"
    using th stats by blast
  have a: "processed (cleanDirectory 1755063488275 (Some ?files))
     = [''report__1755063487275-lv57mqx7xzd.md'', ''locked.zip'', ''1755059886275-old-images'']"
    using allc p by (simp only:)
  have b: "removed (cleanDirectory 1755063488275 (Some ?files)) = [''1755059886275-old-images'']"
    using allc r by (simp only:)
  have d: "cleaned (cleanDirectory 1755063488275 (Some ?files)) = 1"
    using allc n by (simp only:)
  have ab: "sweep_loop 1755063488275 [example_dangling, example_stale]
       \<lparr>cleaned = 0, removed = [], processed = []\<rparr>
     = \<lparr>cleaned = 0, removed = [], processed = []\<rparr>"
    using th dg by blast
  show ?thesis using c s1 dg old f1 f2 names a b d ab by blast
qed

text \<open>
  Claim C5 as stated has every remaining sibling visited after a failed removal, with no
  single child's failure ending the iteration.  In the listing below the first child
  cannot be removed and \<open>stat\<close> rejects for the second: the stale third child is never
  processed and nothing is counted.
\<close>

theorem stat_failure_ends_sweep_counterexample:
  "old_enough 1755063488275 example_locked \<and>
   \<not> unlink_ok example_locked \<and> \<not> rm_ok example_locked \<and>
   removable 1755063488275 example_stale \<and>
   processed (cleanDirectory 1755063488275 (Some [example_locked, example_dangling, example_stale]))
     = [''locked.zip''] \<and>
   child_name example_stale
     \<notin> set (processed (cleanDirectory 1755063488275
                 (Some [example_locked, example_dangling, example_stale]))) \<and>
   cleaned (cleanDirectory 1755063488275 (Some [example_locked, example_dangling, example_stale])) = 0"
  by code_simp

text \<open>
  Claim C6.  A directory holds two entries, one modified one second less than the
  retention window ago and one modified one second more than it ago, and the file
  system lets the older one be removed (by \<open>unlink\<close> or by \<open>rm\<close>).  The sweep removes
  the older entry only and returns 1, in either listing order.
\<close>

theorem sweep_two_entries:
  assumes young: "mtime young = Some (clock - (CLEANUP_AGE_MS - 1000))"
    and old: "mtime old = Some (clock - (CLEANUP_AGE_MS + 1000))"
    and can: "unlink_ok old \<or> rm_ok old"
    and names: "child_name young \<noteq> child_name old"
  shows "cleaned (cleanDirectory clock (Some [young, old])) = 1 \<and>
         removed (cleanDirectory clock (Some [young, old])) = [child_name old] \<and>
         child_name young \<notin> set (removed (cleanDirectory clock (Some [young, old]))) \<and>
         cleaned (cleanDirectory clock (Some [old, young])) = 1 \<and>
         removed (cleanDirectory clock (Some [old, young])) = [child_name old] \<and>
         child_name young \<notin> set (removed (cleanDirectory clock (Some [old, young])))"
  using assms
  by (auto simp: cleanDirectory_def Let_def CLEANUP_AGE_MS_def count_removed_def)

text \<open>The theorem for a recent markdown file and a stale image directory.\<close>

theorem sweep_two_entries_witness:
  "mtime example_recent = Some (1755063488275 - (CLEANUP_AGE_MS - 1000)) \<and>
   mtime example_stale = Some (1755063488275 - (CLEANUP_AGE_MS + 1000)) \<and>
   rm_ok example_stale \<and>
   child_name example_recent \<noteq> child_name example_stale \<and>
   cleaned (cleanDirectory 1755063488275 (Some [example_recent, example_stale])) = 1 \<and>
   removed (cleanDirectory 1755063488275 (Some [example_recent, example_stale]))
     = [''1755059886275-old-images''] \<and>
   cleaned (cleanDirectory 1755063488275 (Some [example_stale, example_recent])) = 1"
proof -
  have y: "mtime example_recent = Some (1755063488275 - (CLEANUP_AGE_MS - 1000))" by code_simp
  have ol: "mtime example_stale = Some (1755063488275 - (CLEANUP_AGE_MS + 1000))" by code_simp
  have rm: "rm_ok example_stale" by code_simp
  have n: "child_name example_recent \<noteq> child_name example_stale" by code_simp
  have nm: "child_name example_stale = ''1755059886275-old-images''" by code_simp
  note th = sweep_two_entries [OF y ol disjI2 [OF rm] n]
  have r: "removed (cleanDirectory 1755063488275 (Some [example_recent, example_stale]))
     = [''1755059886275-old-images'']" using th nm by simp
  show ?thesis using y ol rm n th r by blast
qed

section \<open>The packager\<close>

lemma run_events_without_error:
  "ArchiveError \<notin> set evs \<Longrightarrow> cleanup_after_close closed (run_events settled evs)"
proof (induction evs arbitrary: closed settled)
  case Nil
  then show ?case by simp
next
  case (Cons ev evs)
  then have ev: "ev = OutputClose" by (cases ev) simp_all
  have "cleanup_after_close True (run_events True evs)" using Cons by simp
  then show ?case by (simp add: ev)
qed

lemma run_events_append:
  "run_events settled (pre @ post) =
     run_events settled pre @ run_events (settled \<or> pre \<noteq> []) post"
  by (induction pre arbitrary: settled) simp_all

lemma cleanup_after_close_once_closed:
  "cleanup_after_close True (run_events settled evs)"
proof (induction evs arbitrary: settled)
  case Nil
  then show ?case by simp
next
  case (Cons ev evs)
  show ?case using Cons [of True] by (cases ev) simp_all
qed

text \<open>
  Claim C7, as amended.  In a request that builds an archive, the close event of the
  output stream fires before any start of the cleanup of the staged input and the image
  directory exactly in the runs whose first stream event is that close event and in
  the run with no stream event, where no cleanup starts; among them is every run
  without an archiver error.  Whenever the archiver emits an error, its
  handler starts the cleanup at once, whatever fired before; when the error is the first
  event, the \<open>catch\<close> block of the caller starts the cleanup again, and no close event
  has fired.
\<close>

theorem cleanup_follows_close_without_error:
  "(ArchiveError \<notin> set evs \<longrightarrow> cleanup_after_close False (archive_request_trace evs)) \<and>
   cleanup_after_close False (archive_request_trace (OutputClose # evs)) \<and>
   archive_request_trace (OutputClose # evs) =
     [Fired OutputClose, CleanupStarted, PromiseResolved] @ run_events True evs \<and>
   archive_request_trace (pre @ ArchiveError # post) =
     archive_request_trace pre @ [Fired ArchiveError, CleanupStarted, PromiseRejected]
       @ (if pre = [] then [CatchCleanupStarted] else []) @ run_events True post \<and>
   archive_request_trace (ArchiveError # evs) =
     [Fired ArchiveError, CleanupStarted, PromiseRejected, CatchCleanupStarted]
       @ run_events True evs \<and>
   \<not> cleanup_after_close False (archive_request_trace (ArchiveError # evs)) \<and>
   (cleanup_after_close False (archive_request_trace evs) \<longleftrightarrow>
      evs = [] \<or> (\<exists>rest. evs = OutputClose # rest))"
proof -
  have closed_first: "cleanup_after_close False (archive_request_trace (OutputClose # rest))" for rest
    using cleanup_after_close_once_closed [of True rest] by (simp add: archive_request_trace_def)
  have error_first: "\<not> cleanup_after_close False (archive_request_trace (ArchiveError # rest))" for rest
    by (simp add: archive_request_trace_def)
  have iff: "cleanup_after_close False (archive_request_trace evs) \<longleftrightarrow>
      evs = [] \<or> (\<exists>rest. evs = OutputClose # rest)"
  proof (cases evs)
    case Nil
    then show ?thesis by (simp add: archive_request_trace_def)
  next
    case (Cons ev rest)
    then show ?thesis using closed_first [of rest] error_first [of rest] by (cases ev) simp_all
  qed
  have no_error: "ArchiveError \<notin> set evs \<longrightarrow> cleanup_after_close False (archive_request_trace evs)"
    using run_events_without_error [of evs False False] by (simp add: archive_request_trace_def)
  have split: "archive_request_trace (pre @ ArchiveError # post) =
     archive_request_trace pre @ [Fired ArchiveError, CleanupStarted, PromiseRejected]
       @ (if pre = [] then [CatchCleanupStarted] else []) @ run_events True post"
    by (simp add: archive_request_trace_def run_events_append)
  show ?thesis
    using no_error closed_first [of evs] error_first [of evs] iff split
    by (simp add: archive_request_trace_def)
qed

text \<open>The theorem for the runs close, close then error, and error then close.\<close>

theorem cleanup_follows_close_without_error_witness:
  "ArchiveError \<notin> set [OutputClose] \<and>
   archive_request_trace [OutputClose] = [Fired OutputClose, CleanupStarted, PromiseResolved] \<and>
   cleanup_after_close False (archive_request_trace [OutputClose]) \<and>
   archive_request_trace ([OutputClose] @ ArchiveError # []) =
     [Fired OutputClose, CleanupStarted, PromiseResolved,
      Fired ArchiveError, CleanupStarted, PromiseRejected] \<and>
   cleanup_after_close False (archive_request_trace [OutputClose, ArchiveError]) \<and>
   \<not> cleanup_after_close False (archive_request_trace [ArchiveError, OutputClose])"
proof -
  have a: "ArchiveError \<notin> set [OutputClose]" by simp
  note th1 = cleanup_follows_close_without_error [of "[OutputClose]" "[OutputClose]" "[]"]
  note th2 = cleanup_follows_close_without_error [of "[ArchiveError]"]
  note th3 = cleanup_follows_close_without_error [of "[OutputClose]"]
  have t: "archive_request_trace [OutputClose] = [Fired OutputClose, CleanupStarted, PromiseResolved]"
    by (simp add: archive_request_trace_def)
  have c1: "cleanup_after_close False (archive_request_trace [OutputClose])" using th1 a by blast
  have sp: "archive_request_trace ([OutputClose] @ ArchiveError # []) =
     [Fired OutputClose, CleanupStarted, PromiseResolved,
      Fired ArchiveError, CleanupStarted, PromiseRejected]"
    using th1 t by simp
  have c2: "cleanup_after_close False (archive_request_trace [OutputClose, ArchiveError])"
    using th2 by blast
  have c3: "\<not> cleanup_after_close False (archive_request_trace [ArchiveError, OutputClose])"
    using th3 by blast
  show ?thesis using a t c1 sp c2 c3 by blast
qed

text \<open>
  Claim C7 as stated has the close event before any cleanup in every request.  When the
  archiver emits an error, its handler starts the cleanup and the \<open>catch\<close> block of
  the caller starts it again, and no close event has fired.
\<close>

theorem cleanup_before_close_counterexample:
  "archive_request_trace [ArchiveError] =
     [Fired ArchiveError, CleanupStarted, PromiseRejected, CatchCleanupStarted] \<and>
   \<not> cleanup_after_close False (archive_request_trace [ArchiveError])"
  by (simp add: archive_request_trace_def)

lemma basename_of_file:
  assumes "dir = [] \<or> last dir = slash" and "plain_segment name"
  shows "basename (dir @ name) = name"
proof -
  have ne: "name \<noteq> []" and sf: "slash \<notin> set name"
    using assms(2) unfolding plain_segment_def by blast+
  have "hd (rev name) \<noteq> slash" using ne sf by (metis hd_rev last_in_set)
  then have d: "dropWhile (\<lambda>c. c = slash) (rev name @ rev dir) = rev name @ rev dir"
    using ne by (cases "rev name") simp_all
  have all: "\<forall>c\<in>set (rev name). c \<noteq> slash" using sf by auto
  have "takeWhile (\<lambda>c. c \<noteq> slash) (rev name @ rev dir) = rev name"
  proof (cases "dir = []")
    case True
    then show ?thesis using all by simp
  next
    case False
    then have "last dir = slash" using assms(1) by simp
    then have "dir = butlast dir @ [slash]" using False by (metis append_butlast_last_id)
    then have "rev dir = slash # rev (butlast dir)" by (metis rev.simps(2) rev_rev_ident rev_swap)
    then obtain r where r: "rev dir = slash # r" by blast
    have "takeWhile (\<lambda>c. c \<noteq> slash) (rev name @ slash # r) =
            takeWhile (\<lambda>c. c \<noteq> slash) (rev name)"
      by (simp add: takeWhile_tail)
    also have "\<dots> = rev name" using all by simp
    finally show ?thesis by (simp only: r)
  qed
  then show ?thesis by (simp add: basename_def d)
qed

lemma split_on_file:
  assumes "dir = [] \<or> last dir = slash" and "slash \<notin> set name"
  shows "\<exists>segs. split_on slash (dir @ name @ ''/'') = segs @ [name, []]"
proof (cases "dir = []")
  case True
  have "split_on slash (name @ slash # []) = split_on slash name @ split_on slash []"
    by (rule split_on_append)
  then have "split_on slash (name @ ''/'') = [] @ [name, []]"
    using assms(2) by (simp add: split_on_no_sep slash_def)
  then show ?thesis using True by auto
next
  case False
  then have dir: "dir = butlast dir @ [slash]" using assms(1) by (metis append_butlast_last_id)
  have "dir @ name @ ''/'' = butlast dir @ slash # (name @ slash # [])"
    using dir by (metis append_Cons append_Nil append_assoc slash_def)
  then have "split_on slash (dir @ name @ ''/'') =
      split_on slash (butlast dir) @ split_on slash (name @ slash # [])"
    by (simp only: split_on_append)
  also have "split_on slash (name @ slash # []) = split_on slash name @ split_on slash []"
    by (rule split_on_append)
  finally have "split_on slash (dir @ name @ ''/'') = split_on slash (butlast dir) @ [name, []]"
    using assms(2) by (simp add: split_on_no_sep)
  then show ?thesis by blast
qed

lemma normalizeString_file:
  assumes "split_on slash q = segs @ [name, []]" and "plain_segment name"
  shows "\<exists>pre. normalizeString q a = pre @ name \<and> (pre = [] \<or> last pre = slash)"
proof -
  let ?R = "foldl (norm_step a) [] segs"
  have "foldl (norm_step a) [] (segs @ [name, []]) = ?R @ [name]"
    using assms(2) unfolding plain_segment_def by (simp add: norm_step_def)
  then have "normalizeString q a = join_with ''/'' (?R @ [name])"
    by (simp add: normalizeString_def assms(1))
  then have "normalizeString q a = (if ?R = [] then name else join_with ''/'' ?R @ ''/'' @ name)"
    by (simp add: join_with_snoc)
  then show ?thesis
    by (cases "?R = []") (auto simp: slash_def intro: exI [of _ "join_with ''/'' ?R @ ''/''"])
qed

lemma resolve_nonempty:
  "sp \<noteq> [] \<Longrightarrow>
   resolve wd sp =
     (let q = (if isAbsolute sp \<or> wd = [] then sp @ ''/'' else wd @ ''/'' @ sp @ ''/'');
          ab = (if isAbsolute sp \<or> wd = [] then isAbsolute sp else isAbsolute wd);
          n = normalizeString q (\<not> ab)
      in if ab then ''/'' @ n else if n \<noteq> [] then n else ''.'')"
  by (simp add: resolve_def Let_def)

lemma basename_resolve_file:
  assumes dir: "dir = [] \<or> last dir = slash" and name: "plain_segment name"
  shows "basename (resolve wd (dir @ name)) = name"
proof -
  have sf: "slash \<notin> set name" and ne: "name \<noteq> []"
    using name unfolding plain_segment_def by blast+
  let ?sp = "dir @ name"
  have spne: "?sp \<noteq> []" using ne by simp
  define q where "q = (if isAbsolute ?sp \<or> wd = [] then ?sp @ ''/'' else wd @ ''/'' @ ?sp @ ''/'')"
  define ab where "ab = (if isAbsolute ?sp \<or> wd = [] then isAbsolute ?sp else isAbsolute wd)"
  have res: "resolve wd ?sp =
      (if ab then ''/'' @ normalizeString q (\<not> ab)
       else if normalizeString q (\<not> ab) \<noteq> [] then normalizeString q (\<not> ab) else ''.'')"
    unfolding resolve_nonempty [OF spne] q_def ab_def Let_def by (rule refl)
  have "\<exists>segs. split_on slash q = segs @ [name, []]"
  proof (cases "isAbsolute ?sp \<or> wd = []")
    case True
    then have "q = dir @ name @ ''/''" by (simp add: q_def)
    then show ?thesis using split_on_file [OF dir sf] by simp
  next
    case False
    then have q: "q = (wd @ ''/'' @ dir) @ name @ ''/''" by (simp add: q_def)
    have "wd @ ''/'' @ dir = [] \<or> last (wd @ ''/'' @ dir) = slash"
      using dir by (auto simp: slash_def)
    from split_on_file [OF this sf] show ?thesis unfolding q .
  qed
  then obtain segs where "split_on slash q = segs @ [name, []]" by blast
  from normalizeString_file [OF this name, of "\<not> ab"]
  obtain pre where n: "normalizeString q (\<not> ab) = pre @ name" and pre: "pre = [] \<or> last pre = slash"
    by blast
  have nne: "normalizeString q (\<not> ab) \<noteq> []" using n ne by simp
  show ?thesis
  proof (cases ab)
    case True
    then have "resolve wd ?sp = (''/'' @ pre) @ name" using res n by simp
    moreover have "''/'' @ pre = [] \<or> last (''/'' @ pre) = slash"
      using pre by (auto simp: slash_def)
    ultimately show ?thesis using basename_of_file [OF _ name] by metis
  next
    case False
    then have "resolve wd ?sp = pre @ name" using res n nne by simp
    then show ?thesis using basename_of_file [OF pre name] by simp
  qed
qed

lemma add_image_entries:
  "entries (add_image wd imgDir img st) = entries st @ [image_entry wd (savedPath_string img)]"
  by (simp add: add_image_def Let_def image_entry_def)

lemma add_image_console_mono:
  "set (console st) \<subseteq> set (console (add_image wd imgDir img st))"
  by (auto simp: add_image_def Let_def)

lemma add_image_warns:
  "\<not> pathCheckPasses (normalize (resolve wd (savedPath_string img))) (normalize (resolve wd imgDir))
   \<Longrightarrow> path_check_warning \<in> set (console (add_image wd imgDir img st))"
  by (simp add: add_image_def Let_def path_check_warning_def)

lemma add_images_entries:
  "entries (add_images wd imgDir imgs st) =
     entries st @ map (\<lambda>img. image_entry wd (savedPath_string img)) imgs"
  by (induction imgs arbitrary: st) (simp_all add: add_image_entries)

lemma add_images_console_mono:
  "set (console st) \<subseteq> set (console (add_images wd imgDir imgs st))"
proof (induction imgs arbitrary: st)
  case Nil
  then show ?case by simp
next
  case (Cons img imgs)
  show ?case using add_image_console_mono [of st wd imgDir img] Cons [of "add_image wd imgDir img st"]
    by auto
qed

lemma add_images_warns:
  assumes "img \<in> set imgs"
    and "\<not> pathCheckPasses (normalize (resolve wd (savedPath_string img))) (normalize (resolve wd imgDir))"
  shows "path_check_warning \<in> set (console (add_images wd imgDir imgs st))"
  using assms(1)
proof (induction imgs arbitrary: st)
  case Nil
  then show ?case by simp
next
  case (Cons i imgs)
  show ?case
  proof (cases "img = i")
    case True
    have "path_check_warning \<in> set (console (add_image wd imgDir img st))"
      using assms(2) by (rule add_image_warns)
    then show ?thesis
      using add_images_console_mono [of "add_image wd imgDir img st" wd imgDir imgs] True by auto
  next
    case False
    then have "img \<in> set imgs" using Cons.prems by simp
    then show ?thesis using Cons.IH by simp
  qed
qed

text \<open>
  Claim C8.  The archive receives the markdown as its one appended entry, named
  \<open><originalName>.md\<close>, followed by one file entry per image, in order.  An image whose
  \<open>savedPath\<close> is a non-empty string gets the entry \<open>images/<base name>\<close> of its absolute
  path, whether or not that path passes the prefix check; when the check fails the
  warning is written to the console and the entry is added all the same.  When
  \<open>savedPath\<close> ends in a file name, that name is the base name in the entry.
\<close>

theorem packager_adds_every_image:
  "entries (createZipFile wd markdown originalName images imgDir) =
     Appended markdown (originalName @ ''.md'')
       # map (\<lambda>img. image_entry wd (savedPath_string img)) images
   \<and> filter is_appended (entries (createZipFile wd markdown originalName images imgDir)) =
       [Appended markdown (originalName @ ''.md'')]
   \<and> (img \<in> set images \<and> savedPath img = Some sp \<and> sp \<noteq> []
       \<longrightarrow> FileAdded (resolve wd sp) (''images/'' @ basename (resolve wd sp))
             \<in> set (entries (createZipFile wd markdown originalName images imgDir)))
   \<and> (img \<in> set images \<and> savedPath img = Some (dir @ name) \<and>
       (dir = [] \<or> last dir = slash) \<and> plain_segment name
       \<longrightarrow> basename (dir @ name) = name \<and>
           FileAdded (resolve wd (dir @ name)) (''images/'' @ name)
             \<in> set (entries (createZipFile wd markdown originalName images imgDir)))
   \<and> (img \<in> set images \<and> savedPath img = Some sp \<and> sp \<noteq> [] \<and>
       \<not> pathCheckPasses (normalize (resolve wd sp)) (normalize (resolve wd imgDir))
       \<longrightarrow> FileAdded (resolve wd sp) (''images/'' @ basename (resolve wd sp))
             \<in> set (entries (createZipFile wd markdown originalName images imgDir))
           \<and> path_check_warning
             \<in> set (console (createZipFile wd markdown originalName images imgDir)))"
proof -
  let ?z = "createZipFile wd markdown originalName images imgDir"
  have en: "entries ?z = Appended markdown (originalName @ ''.md'')
       # map (\<lambda>img. image_entry wd (savedPath_string img)) images"
    by (simp add: createZipFile_def add_images_entries)
  have "filter is_appended (map (\<lambda>img. image_entry wd (savedPath_string img)) images) = []"
    by (induction images) (simp_all add: is_appended_def image_entry_def)
  then have one: "filter is_appended (entries ?z) = [Appended markdown (originalName @ ''.md'')]"
    by (simp add: en is_appended_def)
  have mem: "FileAdded (resolve wd sp) (''images/'' @ basename (resolve wd sp)) \<in> set (entries ?z)"
    if "img \<in> set images" "savedPath img = Some sp" for sp
  proof -
    have "image_entry wd (savedPath_string img) \<in> set (entries ?z)"
      using that(1) by (simp add: en)
    then show ?thesis using that(2) by (simp add: savedPath_string_def image_entry_def)
  qed
  have warn: "path_check_warning \<in> set (console ?z)"
    if "img \<in> set images" "savedPath img = Some sp"
       "\<not> pathCheckPasses (normalize (resolve wd sp)) (normalize (resolve wd imgDir))"
  proof -
    have "savedPath_string img = sp" using that(2) by (simp add: savedPath_string_def)
    then show ?thesis
      unfolding createZipFile_def using add_images_warns [OF that(1)] that(3) by simp
  qed
  have named: "basename (dir @ name) = name \<and>
      FileAdded (resolve wd (dir @ name)) (''images/'' @ name) \<in> set (entries ?z)"
    if "img \<in> set images" "savedPath img = Some (dir @ name)"
       "dir = [] \<or> last dir = slash" "plain_segment name"
    using mem [OF that(1,2)] basename_resolve_file [OF that(3,4), of wd]
      basename_of_file [OF that(3,4)] by simp
  show ?thesis using en one mem warn named by blast
qed

text \<open>The theorem for two images, the second one outside the image directory.\<close>

theorem packager_adds_every_image_witness:
  "\<lparr>savedPath = Some ''/elsewhere/q.png''\<rparr> \<in> set example_images \<and>
   ''/elsewhere/q.png'' \<noteq> [] \<and>
   last ''/elsewhere/'' = slash \<and> plain_segment ''q.png'' \<and>
   basename (''/elsewhere/'' @ ''q.png'') = ''q.png'' \<and>
   \<not> pathCheckPasses (normalize (resolve ''/home/app'' ''/elsewhere/q.png''))
        (normalize (resolve ''/home/app'' ''/home/app/temp/1-a-images'')) \<and>
   FileAdded ''/elsewhere/q.png'' ''images/q.png''
     \<in> set (entries (createZipFile ''/home/app'' ''# Title'' ''report'' example_images
                ''/home/app/temp/1-a-images'')) \<and>
   path_check_warning
     \<in> set (console (createZipFile ''/home/app'' ''# Title'' ''report'' example_images
                ''/home/app/temp/1-a-images'')) \<and>
   entries (createZipFile ''/home/app'' ''# Title'' ''report'' example_images
                ''/home/app/temp/1-a-images'')
     = [Appended ''# Title'' ''report.md'',
        FileAdded ''/home/app/temp/1-a-images/images/p.png'' ''images/p.png'',
        FileAdded ''/elsewhere/q.png'' ''images/q.png'']"
proof -
  let ?img = "\<lparr>savedPath = Some ''/elsewhere/q.png''\<rparr>"
  have m: "?img \<in> set example_images" by (simp add: example_images_def)
  have sp: "savedPath ?img = Some ''/elsewhere/q.png''" by simp
  have ne: "''/elsewhere/q.png'' \<noteq> []" by simp
  have chk: "\<not> pathCheckPasses (normalize (resolve ''/home/app'' ''/elsewhere/q.png''))
        (normalize (resolve ''/home/app'' ''/home/app/temp/1-a-images''))" by code_simp
  have r: "resolve ''/home/app'' ''/elsewhere/q.png'' = ''/elsewhere/q.png''" by code_simp
  have b: "basename ''/elsewhere/q.png'' = ''q.png''" by code_simp
  have all: "entries (createZipFile ''/home/app'' ''# Title'' ''report'' example_images
                ''/home/app/temp/1-a-images'')
     = [Appended ''# Title'' ''report.md'',
        FileAdded ''/home/app/temp/1-a-images/images/p.png'' ''images/p.png'',
        FileAdded ''/elsewhere/q.png'' ''images/q.png'']" by code_simp
  note th = packager_adds_every_image [of "''/home/app''" "''# Title''" "''report''" example_images
      "''/home/app/temp/1-a-images''" ?img "''/elsewhere/q.png''"]
  have e: "FileAdded (resolve ''/home/app'' ''/elsewhere/q.png'')
            (''images/'' @ basename (resolve ''/home/app'' ''/elsewhere/q.png''))
     \<in> set (entries (createZipFile ''/home/app'' ''# Title'' ''report'' example_images
                ''/home/app/temp/1-a-images''))" using th m sp ne by blast
  have w: "path_check_warning
     \<in> set (console (createZipFile ''/home/app'' ''# Title'' ''report'' example_images
                ''/home/app/temp/1-a-images''))" using th m sp ne chk by blast
  have e': "FileAdded ''/elsewhere/q.png'' ''images/q.png''
     \<in> set (entries (createZipFile ''/home/app'' ''# Title'' ''report'' example_images
                ''/home/app/temp/1-a-images''))" using e by (simp add: r b)
  have l: "last ''/elsewhere/'' = slash" by (simp add: slash_def)
  have pl: "plain_segment ''q.png''" by (simp add: plain_segment_def slash_def)
  note th2 = packager_adds_every_image [of "''/home/app''" "''# Title''" "''report''" example_images
      "''/home/app/temp/1-a-images''" ?img _ "''/elsewhere/''" "''q.png''"]
  have bn: "basename (''/elsewhere/'' @ ''q.png'') = ''q.png''" using th2 m l pl by simp
  show ?thesis using m ne chk e' w all l pl bn by blast
qed

text \<open>
  Claim C9.  The options handed to the converter have \<open>preserveLayout\<close> true whatever
  the form field holds, also when it holds \<open>false\<close>, and two requests that differ
  only in that field hand over the same options.
\<close>

theorem preserveLayout_is_forced:
  "preserveLayout (convert_call_options tmp fid f) = True \<and>
   preserveLayout (convert_call_options tmp fid (f\<lparr>preserveLayout_field := Some ''false''\<rparr>)) = True \<and>
   convert_call_options tmp fid (f\<lparr>preserveLayout_field := v\<rparr>) =
     convert_call_options tmp fid (f\<lparr>preserveLayout_field := v'\<rparr>)"
  by (simp add: convert_call_options_def Let_def extractImagesFlag_def extractChartsFlag_def)

end
